theory Spec2Isabelle
  imports Main
begin

section \<open>Chromosome profiles: the data model of \<^verbatim>\<open>chrm_prof.py\<close>\<close>

text \<open>
  A \<^verbatim>\<open>ChrmProf\<close> owns the chromosome string and two doubly linked lists: the
  list of \<^verbatim>\<open>_OrgNode\<close>s (segments in original coordinates) and the list of
  \<^verbatim>\<open>_MutNode\<close>s (segments in current coordinates). The nodes are Python
  objects that point at each other (\<^verbatim>\<open>l\<close>, \<^verbatim>\<open>r\<close>, \<^verbatim>\<open>parent\<close>,
  \<^verbatim>\<open>children\<close>), and the operators update them in place. The model keeps every
  node in a store: a list of node records, a node's address being its index. A
  reference is a \<^typ>\<open>nat\<close>, a reference that may be \<^verbatim>\<open>None\<close> is a
  \<^typ>\<open>nat option\<close>, and creating a node appends it to the store. A node that
  Python no longer reaches stays in the store, unreachable.
\<close>

record org_node =
  o_children :: "nat list"
  o_l :: "nat option"
  o_r :: "nat option"
  o_bgn :: int
  o_end :: int

record mut_node =
  m_parent :: "nat option"
  m_l :: "nat option"
  m_r :: "nat option"
  m_bgn :: int
  m_end :: int
  m_is_inv :: bool

record chrm_prof =
  chrm :: string
  org :: nat
  mut :: "nat option"
  orgs :: "org_node list"
  muts :: "mut_node list"

text \<open>
  What a call can do other than return: raise one of Python's exceptions, or loop
  for ever. Every loop that follows \<^verbatim>\<open>r\<close> pointers is given fuel; it needs at
  most one step per node of the store unless the pointers form a cycle, on which
  the Python loop does not end.
\<close>

datatype error = AttributeError | TypeError | ValueError | Diverged

text \<open>\<^verbatim>\<open>ChrmProf.__init__\<close>: one node of each kind, spanning the whole string.\<close>

definition create :: "string \<Rightarrow> chrm_prof" where
  "create c =
     \<lparr> chrm = c, org = 0, mut = Some 0,
       orgs = [\<lparr> o_children = [0], o_l = None, o_r = None,
                 o_bgn = 0, o_end = int (length c) - 1 \<rparr>],
       muts = [\<lparr> m_parent = Some 0, m_l = None, m_r = None,
                 m_bgn = 0, m_end = int (length c) - 1, m_is_inv = False \<rparr>] \<rparr>"

subsection \<open>Queries\<close>

text \<open>\<^verbatim>\<open>get_copy_nums\<close>: walk the original list, collecting bounds and the number of children.\<close>

fun copy_nums_loop :: "nat \<Rightarrow> org_node list \<Rightarrow> nat option \<Rightarrow> error + (int list \<times> int list \<times> nat list)" where
  "copy_nums_loop 0 h cur = Inl Diverged"
| "copy_nums_loop (Suc f) h None = Inr ([], [], [])"
| "copy_nums_loop (Suc f) h (Some c) =
     (case copy_nums_loop f h (o_r (h ! c)) of
        Inl e \<Rightarrow> Inl e
      | Inr (bgns, ends, cps) \<Rightarrow>
          Inr (o_bgn (h ! c) # bgns, o_end (h ! c) # ends, length (o_children (h ! c)) # cps))"

definition get_copy_nums :: "chrm_prof \<Rightarrow> error + (int list \<times> int list \<times> nat list)" where
  "get_copy_nums s = copy_nums_loop (Suc (length (orgs s))) (orgs s) (Some (org s))"

text \<open>
  The loop \<^verbatim>\<open>while cur != None and not P(cur): cur = cur.r\<close>, which the source
  writes six times with different tests \<open>P\<close>.
\<close>

fun seek :: "nat \<Rightarrow> mut_node list \<Rightarrow> (mut_node \<Rightarrow> bool) \<Rightarrow> nat option \<Rightarrow> error + nat option" where
  "seek 0 h P cur = Inl Diverged"
| "seek (Suc f) h P None = Inr None"
| "seek (Suc f) h P (Some c) = (if P (h ! c) then Inr (Some c) else seek f h P (m_r (h ! c)))"

definition get_head_tail :: "mut_node list \<Rightarrow> nat option \<Rightarrow> int \<Rightarrow> int \<Rightarrow> error + (nat option \<times> nat option)" where
  "get_head_tail h cur b e =
     (case seek (Suc (length h)) h (\<lambda>nd. m_bgn nd = b) cur of
        Inl err \<Rightarrow> Inl err
      | Inr head \<Rightarrow>
          (case seek (Suc (length h)) h (\<lambda>nd. m_end nd = e) head of
             Inl err \<Rightarrow> Inl err
           | Inr tail \<Rightarrow> Inr (head, tail)))"

fun is_already_mut_bgn :: "nat \<Rightarrow> mut_node list \<Rightarrow> nat option \<Rightarrow> int \<Rightarrow> error + bool" where
  "is_already_mut_bgn 0 h cur b = Inl Diverged"
| "is_already_mut_bgn (Suc f) h None b = Inr False"
| "is_already_mut_bgn (Suc f) h (Some c) b =
     (if b = m_bgn (h ! c) then Inr True else is_already_mut_bgn f h (m_r (h ! c)) b)"

fun is_already_mut_end :: "nat \<Rightarrow> mut_node list \<Rightarrow> nat option \<Rightarrow> int \<Rightarrow> error + bool" where
  "is_already_mut_end 0 h cur e = Inl Diverged"
| "is_already_mut_end (Suc f) h None e = Inr False"
| "is_already_mut_end (Suc f) h (Some c) e =
     (if e = m_end (h ! c) then Inr True else is_already_mut_end f h (m_r (h ! c)) e)"

definition is_in_bounds :: "chrm_prof \<Rightarrow> int \<Rightarrow> int \<Rightarrow> bool" where
  "is_in_bounds s b e = (\<not> (b < 0 \<or> b > e \<or> e \<ge> int (length (chrm s))))"

text \<open>
  \<^verbatim>\<open>_is_splitable\<close>. Python's \<^verbatim>\<open>and\<close> evaluates its right operand only when the
  left one holds, so the list is walked only then.
\<close>

definition is_splitable :: "chrm_prof \<Rightarrow> int \<Rightarrow> int \<Rightarrow> error + bool" where
  "is_splitable s b e =
     (case (if b \<noteq> 0 then is_already_mut_bgn (Suc (length (muts s))) (muts s) (mut s) b
            else Inr False) of
        Inl err \<Rightarrow> Inl err
      | Inr True \<Rightarrow> Inr False
      | Inr False \<Rightarrow>
          (case (if e + 1 < int (length (chrm s))
                 then is_already_mut_end (Suc (length (muts s))) (muts s) (mut s) e
                 else Inr False) of
             Inl err \<Rightarrow> Inl err
           | Inr True \<Rightarrow> Inr False
           | Inr False \<Rightarrow> Inr True))"

subsection \<open>Splitting\<close>

text \<open>
  \<^verbatim>\<open>_OrgNode.split\<close> and \<^verbatim>\<open>_MutNode.split\<close>: a new right sibling that takes the
  part from offset \<open>k\<close> on; the node itself keeps the first \<open>k\<close> positions. Both return
  the new node.
\<close>

definition org_split :: "org_node list \<Rightarrow> nat \<Rightarrow> int \<Rightarrow> org_node list \<times> nat" where
  "org_split h x k =
     (let n = length h; self = h ! x; r = o_r self;
          new = \<lparr> o_children = [], o_l = Some x, o_r = r,
                  o_bgn = o_bgn self + k, o_end = o_end self \<rparr>;
          h1 = h[x := self\<lparr> o_r := Some n \<rparr>] @ [new];
          h2 = (case r of None \<Rightarrow> h1 | Some y \<Rightarrow> h1[y := (h1 ! y)\<lparr> o_l := Some n \<rparr>]);
          h3 = h2[x := (h2 ! x)\<lparr> o_end := o_bgn self + k - 1 \<rparr>]
      in (h3, n))"

definition mut_split :: "mut_node list \<Rightarrow> nat \<Rightarrow> int \<Rightarrow> mut_node list \<times> nat" where
  "mut_split h x k =
     (let n = length h; self = h ! x; r = m_r self;
          new = \<lparr> m_parent = None, m_l = Some x, m_r = r,
                  m_bgn = m_bgn self + k, m_end = m_end self, m_is_inv = m_is_inv self \<rparr>;
          h1 = h[x := self\<lparr> m_r := Some n \<rparr>] @ [new];
          h2 = (case r of None \<Rightarrow> h1 | Some y \<Rightarrow> h1[y := (h1 ! y)\<lparr> m_l := Some n \<rparr>]);
          h3 = h2[x := (h2 ! x)\<lparr> m_end := m_bgn self + k - 1 \<rparr>]
      in (h3, n))"

text \<open>
  The \<^verbatim>\<open>for\<close> loop of \<^verbatim>\<open>_split\<close>: every child of the original node that was split
  is split at the same offset, and its new right part becomes a child of the new
  original node \<open>o2\<close>.
\<close>

fun split_children :: "mut_node list \<Rightarrow> org_node list \<Rightarrow> nat \<Rightarrow> int \<Rightarrow> nat list \<Rightarrow> mut_node list \<times> org_node list" where
  "split_children mh oh o2 k [] = (mh, oh)"
| "split_children mh oh o2 k (c # cs) =
     (let (mh1, n) = mut_split mh c k;
          mh2 = mh1[n := (mh1 ! n)\<lparr> m_parent := Some o2 \<rparr>];
          oh1 = oh[o2 := (oh ! o2)\<lparr> o_children := o_children (oh ! o2) @ [n] \<rparr>]
      in split_children mh2 oh1 o2 k cs)"

text \<open>
  \<^verbatim>\<open>_split(k)\<close>: \<open>k\<close> is to become the first position of a segment. The node that
  holds \<open>k\<close> is looked up in the mutated list; nothing is done when \<open>k\<close> is its first
  or its last position.
\<close>

definition split_at :: "chrm_prof \<Rightarrow> int \<Rightarrow> error + chrm_prof" where
  "split_at s k =
     (if k = 0 \<or> k \<ge> int (length (chrm s)) then Inr s
      else
        (case seek (Suc (length (muts s))) (muts s) (\<lambda>nd. m_bgn nd \<le> k \<and> k \<le> m_end nd) (mut s) of
           Inl err \<Rightarrow> Inl err
         | Inr None \<Rightarrow> Inl AttributeError
         | Inr (Some sm) \<Rightarrow>
             (let smn = muts s ! sm in
              if m_bgn smn = k \<or> m_end smn = k then Inr s
              else
                (case m_parent smn of
                   None \<Rightarrow> Inl AttributeError
                 | Some o1 \<Rightarrow>
                     (let k' = k - m_bgn smn;
                          (oh, o2) = org_split (orgs s) o1 k';
                          (mh, oh') = split_children (muts s) oh o2 k' (o_children (oh ! o1))
                      in Inr (s\<lparr> orgs := oh', muts := mh \<rparr>))))))"

text \<open>\<^verbatim>\<open>_2split\<close>: no split at the start or at the end of the chromosome.\<close>

definition two_split :: "chrm_prof \<Rightarrow> int \<Rightarrow> int \<Rightarrow> error + chrm_prof" where
  "two_split s b e =
     (let n = int (length (chrm s)) in
      case (if b > 0 then split_at s b else Inr s) of
        Inl err \<Rightarrow> Inl err
      | Inr s1 \<Rightarrow> (if e + 1 < n then split_at s1 (e + 1) else Inr s1))"

text \<open>
  \<^verbatim>\<open>tri_split_str\<close>, with Python's slices: a bound below zero counts from the end,
  and every bound is clipped to the string.
\<close>

definition slice_idx :: "'a list \<Rightarrow> int \<Rightarrow> nat" where
  "slice_idx s i = (if i < 0 then nat (max 0 (int (length s) + i)) else min (nat i) (length s))"

definition tri_split_str :: "'a list \<Rightarrow> int \<Rightarrow> int \<Rightarrow> 'a list \<times> 'a list \<times> 'a list" where
  "tri_split_str s b e =
     (take (slice_idx s b) s,
      drop (slice_idx s b) (take (slice_idx s (e + 1)) s),
      drop (slice_idx s (e + 1)) s)"

subsection \<open>Inversion\<close>

text \<open>
  \<^verbatim>\<open>_get_inv_pos_diff\<close>. The source computes the midpoint with
  \<^verbatim>\<open>math.ceil(float(rglen) / 2.0)\<close>; on integers that is the ceiling of the half,
  written here with integer division (which rounds down, as Python's does).
\<close>

definition get_inv_pos_diff :: "int \<Rightarrow> int \<Rightarrow> int \<Rightarrow> int \<Rightarrow> int" where
  "get_inv_pos_diff rgbgn rgend sgbgn sgend =
     (let rglen = rgend - rgbgn + 1;
          sglen = sgend - sgbgn + 1;
          mid = - ((- rglen) div 2) + rgbgn - 1;
          l = mid - sgend
      in if rglen mod 2 = 0 then 2 * l + sglen else 2 * l + sglen - 1)"

text \<open>
  The loop of \<^verbatim>\<open>_rev_mut\<close> from the inner head up to, not including, the outer
  tail \<open>ot\<close>: each node swaps its pointers, moves and flips its orientation.
\<close>

fun rev_loop :: "nat \<Rightarrow> mut_node list \<Rightarrow> int \<Rightarrow> int \<Rightarrow> nat option \<Rightarrow> nat option \<Rightarrow> error + mut_node list" where
  "rev_loop 0 h rgbgn rgend cur ot = (if cur = ot then Inr h else Inl Diverged)"
| "rev_loop (Suc f) h rgbgn rgend cur ot =
     (if cur = ot then Inr h
      else
        (case cur of
           None \<Rightarrow> Inl AttributeError
         | Some c \<Rightarrow>
             (let nd = h ! c; prv = m_l nd; nxt = m_r nd;
                  pos_diff = get_inv_pos_diff rgbgn rgend (m_bgn nd) (m_end nd);
                  nd' = nd\<lparr> m_l := nxt, m_r := prv, m_bgn := m_bgn nd + pos_diff,
                            m_end := m_end nd + pos_diff, m_is_inv := \<not> m_is_inv nd \<rparr>
              in rev_loop f (h[c := nd']) rgbgn rgend nxt ot)))"

definition rev_mut :: "chrm_prof \<Rightarrow> int \<Rightarrow> int \<Rightarrow> error + chrm_prof" where
  "rev_mut s b e =
     (let h = muts s; fuel = Suc (length h) in
      case seek fuel h (\<lambda>nd. m_bgn nd = b) (mut s) of
        Inl err \<Rightarrow> Inl err
      | Inr None \<Rightarrow> Inl AttributeError
      | Inr (Some ih) \<Rightarrow>
          (let oh = m_l (h ! ih) in
           case seek fuel h (\<lambda>nd. m_end nd = e) (Some ih) of
             Inl err \<Rightarrow> Inl err
           | Inr None \<Rightarrow> Inl AttributeError
           | Inr (Some it) \<Rightarrow>
               (let ot = m_r (h ! it); rgbgn = m_bgn (h ! ih); rgend = m_end (h ! it) in
                case rev_loop fuel h rgbgn rgend (Some ih) ot of
                  Inl err \<Rightarrow> Inl err
                | Inr h1 \<Rightarrow>
                    (let h2 = h1[it := (h1 ! it)\<lparr> m_l := oh \<rparr>];
                         h3 = h2[ih := (h2 ! ih)\<lparr> m_r := ot \<rparr>];
                         h4 = (case oh of None \<Rightarrow> h3 | Some x \<Rightarrow> h3[x := (h3 ! x)\<lparr> m_r := Some it \<rparr>]);
                         h5 = (case ot of None \<Rightarrow> h4 | Some y \<Rightarrow> h4[y := (h4 ! y)\<lparr> m_l := Some ih \<rparr>])
                     in Inr (s\<lparr> mut := (if oh = None then Some it else mut s), muts := h5 \<rparr>)))))"

text \<open>
  The three operators return a Boolean and update the profile in place: the model
  returns the new profile with the Boolean. \<^verbatim>\<open>inv\<close> is called \<open>inv_op\<close> here.
\<close>

definition inv_op :: "chrm_prof \<Rightarrow> int \<Rightarrow> int \<Rightarrow> error + (chrm_prof \<times> bool)" where
  "inv_op s b e =
     (if \<not> is_in_bounds s b e then Inr (s, False)
      else
        (case is_splitable s b e of
           Inl err \<Rightarrow> Inl err
         | Inr False \<Rightarrow> Inr (s, False)
         | Inr True \<Rightarrow>
             (case two_split s b e of
                Inl err \<Rightarrow> Inl err
              | Inr s1 \<Rightarrow>
                  (case rev_mut s1 b e of
                     Inl err \<Rightarrow> Inl err
                   | Inr s2 \<Rightarrow>
                       (let (c1, c2, c3) = tri_split_str (chrm s2) b e
                        in Inr (s2\<lparr> chrm := c1 @ rev c2 @ c3 \<rparr>, True))))))"

subsection \<open>Deletion\<close>

text \<open>
  The loop that takes each removed node out of its parent's list of children.
  \<^verbatim>\<open>list.remove\<close> removes the first occurrence and raises \<^verbatim>\<open>ValueError\<close> when
  there is none.
\<close>

fun dereg_loop :: "nat \<Rightarrow> mut_node list \<Rightarrow> org_node list \<Rightarrow> nat option \<Rightarrow> error + org_node list" where
  "dereg_loop 0 mh oh cur = Inl Diverged"
| "dereg_loop (Suc f) mh oh None = Inr oh"
| "dereg_loop (Suc f) mh oh (Some c) =
     (case m_parent (mh ! c) of
        None \<Rightarrow> Inl AttributeError
      | Some p \<Rightarrow>
          (if c \<in> set (o_children (oh ! p))
           then dereg_loop f mh (oh[p := (oh ! p)\<lparr> o_children := remove1 c (o_children (oh ! p)) \<rparr>])
                  (m_r (mh ! c))
           else Inl ValueError))"

text \<open>The loops that move every node from \<open>cur\<close> to the end of the list by \<open>d\<close>.\<close>

fun shift_loop :: "nat \<Rightarrow> mut_node list \<Rightarrow> nat option \<Rightarrow> int \<Rightarrow> error + mut_node list" where
  "shift_loop 0 h cur d = Inl Diverged"
| "shift_loop (Suc f) h None d = Inr h"
| "shift_loop (Suc f) h (Some c) d =
     shift_loop f (h[c := (h ! c)\<lparr> m_bgn := m_bgn (h ! c) + d, m_end := m_end (h ! c) + d \<rparr>])
       (m_r (h ! c)) d"

definition rem :: "chrm_prof \<Rightarrow> int \<Rightarrow> int \<Rightarrow> error + (chrm_prof \<times> bool)" where
  "rem s b e =
     (if \<not> is_in_bounds s b e then Inr (s, False)
      else
        (case is_splitable s b e of
           Inl err \<Rightarrow> Inl err
         | Inr False \<Rightarrow> Inr (s, False)
         | Inr True \<Rightarrow>
             (case two_split s b e of
                Inl err \<Rightarrow> Inl err
              | Inr s1 \<Rightarrow>
                  (case get_head_tail (muts s1) (mut s1) b e of
                     Inl err \<Rightarrow> Inl err
                   | Inr (None, tail) \<Rightarrow> Inl AttributeError
                   | Inr (Some head, None) \<Rightarrow> Inl AttributeError
                   | Inr (Some head, Some tail) \<Rightarrow>
                       (let h = muts s1; fuel = Suc (length h);
                            newL = m_l (h ! head); newR = m_r (h ! tail);
                            h1 = (case newL of None \<Rightarrow> h | Some x \<Rightarrow> h[x := (h ! x)\<lparr> m_r := newR \<rparr>]);
                            h2 = (case newR of None \<Rightarrow> h1 | Some y \<Rightarrow> h1[y := (h1 ! y)\<lparr> m_l := newL \<rparr>]);
                            h3 = h2[head := (h2 ! head)\<lparr> m_l := None \<rparr>];
                            h4 = h3[tail := (h3 ! tail)\<lparr> m_r := None \<rparr>]
                        in case dereg_loop fuel h4 (orgs s1) (Some head) of
                             Inl err \<Rightarrow> Inl err
                           | Inr oh \<Rightarrow>
                               (case shift_loop fuel h4 newR (- (e - b + 1)) of
                                  Inl err \<Rightarrow> Inl err
                                | Inr h5 \<Rightarrow>
                                    (let (c1, c2, c3) = tri_split_str (chrm s1) b e
                                     in Inr (s1\<lparr> chrm := c1 @ c3,
                                                 mut := (if newL = None then newR else mut s1),
                                                 orgs := oh, muts := h5 \<rparr>, True))))))))"

subsection \<open>Amplification\<close>

text \<open>
  The copying loop of \<^verbatim>\<open>_copy_from_to\<close>. \<^verbatim>\<open>copy.copy\<close> makes a new node with
  the fields of \<open>curA\<close>; it is appended to its parent's children and linked behind
  the previous copy. The loop returns the last node copied, the first copy and the
  last copy, or falls out of the list and returns \<^verbatim>\<open>None\<close>.
\<close>

fun copy_loop :: "nat \<Rightarrow> mut_node list \<Rightarrow> org_node list \<Rightarrow> nat option \<Rightarrow> nat option \<Rightarrow> nat option \<Rightarrow> int
    \<Rightarrow> error + (mut_node list \<times> org_node list \<times> (nat \<times> nat \<times> nat) option)" where
  "copy_loop 0 mh oh curA headB prevB to = Inl Diverged"
| "copy_loop (Suc f) mh oh None headB prevB to = Inr (mh, oh, None)"
| "copy_loop (Suc f) mh oh (Some a) headB prevB to =
     (let nd = mh ! a; curB = length mh in
      case m_parent nd of
        None \<Rightarrow> Inl AttributeError
      | Some p \<Rightarrow>
          (let oh1 = oh[p := (oh ! p)\<lparr> o_children := o_children (oh ! p) @ [curB] \<rparr>];
               headB' = (case headB of None \<Rightarrow> curB | Some hb \<Rightarrow> hb);
               mh1 = mh @ [nd\<lparr> m_l := prevB, m_r := None \<rparr>];
               mh2 = (case prevB of None \<Rightarrow> mh1 | Some pb \<Rightarrow> mh1[pb := (mh1 ! pb)\<lparr> m_r := Some curB \<rparr>])
           in if m_end nd = to then Inr (mh2, oh1, Some (a, headB', curB))
              else copy_loop f mh2 oh1 (m_r nd) (Some headB') (Some curB) to))"

definition copy_from_to :: "mut_node list \<Rightarrow> org_node list \<Rightarrow> nat option \<Rightarrow> int \<Rightarrow> int
    \<Rightarrow> error + (mut_node list \<times> org_node list \<times> (nat \<times> nat \<times> nat) option)" where
  "copy_from_to mh oh head fm to =
     (case seek (Suc (length mh)) mh (\<lambda>nd. m_bgn nd = fm) head of
        Inl err \<Rightarrow> Inl err
      | Inr curA \<Rightarrow> copy_loop (Suc (length mh)) mh oh curA None None to)"

definition amp :: "chrm_prof \<Rightarrow> int \<Rightarrow> int \<Rightarrow> error + (chrm_prof \<times> bool)" where
  "amp s b e =
     (if \<not> is_in_bounds s b e then Inr (s, False)
      else
        (case is_splitable s b e of
           Inl err \<Rightarrow> Inl err
         | Inr False \<Rightarrow> Inr (s, False)
         | Inr True \<Rightarrow>
             (case two_split s b e of
                Inl err \<Rightarrow> Inl err
              | Inr s1 \<Rightarrow>
                  (case copy_from_to (muts s1) (orgs s1) (mut s1) b e of
                     Inl err \<Rightarrow> Inl err
                   | Inr (mh, oh, None) \<Rightarrow> Inl TypeError
                   | Inr (mh, oh, Some (insR, head, tail)) \<Rightarrow>
                       (let insL = m_r (mh ! insR);
                            h1 = mh[insR := (mh ! insR)\<lparr> m_r := Some head \<rparr>];
                            h2 = h1[head := (h1 ! head)\<lparr> m_l := Some insR \<rparr>];
                            h3 = h2[tail := (h2 ! tail)\<lparr> m_r := insL \<rparr>];
                            h4 = (case insL of None \<Rightarrow> h3 | Some y \<Rightarrow> h3[y := (h3 ! y)\<lparr> m_l := Some tail \<rparr>])
                        in case shift_loop (Suc (length h4)) h4 (Some head) (e - b + 1) of
                             Inl err \<Rightarrow> Inl err
                           | Inr h5 \<Rightarrow>
                               (let (c1, c2, c3) = tri_split_str (chrm s1) b e
                                in Inr (s1\<lparr> chrm := c1 @ c2 @ c2 @ c3, orgs := oh, muts := h5 \<rparr>, True)))))))"

subsection \<open>Reads over breakpoints\<close>

text \<open>
  \<^verbatim>\<open>get_sv_read_nums\<close> returns a dictionary from a breakpoint \<open>(pos, isLeft)\<close> to a
  dictionary with the keys \<^verbatim>\<open>total_reads\<close>, \<^verbatim>\<open>mated_reads\<close> and, once a mate
  was recorded, \<^verbatim>\<open>mate\<close>.
\<close>

type_synonym bp = "int \<times> bool"

record sv_entry =
  total_reads :: nat
  mated_reads :: nat
  mate :: "bp option"

type_synonym svs = "bp \<rightharpoonup> sv_entry"

definition is_between :: "int \<Rightarrow> int \<Rightarrow> int \<Rightarrow> bool" where
  "is_between x a b = (a \<le> x \<and> x \<le> b)"

definition get_org_pos :: "mut_node list \<Rightarrow> org_node list \<Rightarrow> nat \<Rightarrow> bool \<Rightarrow> error + int" where
  "get_org_pos mh oh node isBgn =
     (let isBgn' = (if m_is_inv (mh ! node) then \<not> isBgn else isBgn) in
      case m_parent (mh ! node) of
        None \<Rightarrow> Inl AttributeError
      | Some p \<Rightarrow> Inr (if isBgn' then o_bgn (oh ! p) else o_end (oh ! p)))"

text \<open>\<^verbatim>\<open>_get_mated_pos\<close>; the result \<open>None\<close> stands for \<^verbatim>\<open>(None, None, None)\<close>.\<close>

definition get_mated_pos :: "mut_node list \<Rightarrow> org_node list \<Rightarrow> nat \<Rightarrow> bool \<Rightarrow> error + (int \<times> bool \<times> bool) option" where
  "get_mated_pos mh oh cur isBgn =
     (case (if isBgn then m_l (mh ! cur) else m_r (mh ! cur)) of
        None \<Rightarrow> Inr None
      | Some mt \<Rightarrow>
          (case get_org_pos mh oh cur isBgn of
             Inl err \<Rightarrow> Inl err
           | Inr curPos \<Rightarrow>
               (case get_org_pos mh oh mt (\<not> isBgn) of
                  Inl err \<Rightarrow> Inl err
                | Inr matePos \<Rightarrow>
                    (case m_parent (mh ! mt) of
                       None \<Rightarrow> Inl AttributeError
                     | Some p \<Rightarrow>
                         Inr (Some (matePos, o_end (oh ! p) = matePos, \<bar>curPos - matePos\<bar> = 1))))))"

definition get_cur_pos :: "mut_node list \<Rightarrow> org_node list \<Rightarrow> nat \<Rightarrow> bool \<Rightarrow> error + bp" where
  "get_cur_pos mh oh cur isBgn =
     (case m_parent (mh ! cur) of
        None \<Rightarrow> Inl AttributeError
      | Some oCur \<Rightarrow>
          (let isLeft = (if m_is_inv (mh ! cur) then \<not> (\<not> isBgn) else \<not> isBgn) in
           if isLeft then Inr (o_end (oh ! oCur), isLeft) else Inr (o_bgn (oh ! oCur), isLeft)))"

text \<open>
  An update \<^verbatim>\<open>svs[k][field] = ...\<close> of an entry that is present; on an absent key
  Python raises \<^verbatim>\<open>KeyError\<close>, which cannot happen below since both keys are
  entered first, so the dictionary is left as it is there.
\<close>

definition upd_entry :: "svs \<Rightarrow> bp \<Rightarrow> (sv_entry \<Rightarrow> sv_entry) \<Rightarrow> svs" where
  "upd_entry d k f = (case d k of None \<Rightarrow> d | Some v \<Rightarrow> d(k \<mapsto> f v))"

definition new_entry :: "svs \<Rightarrow> bp \<Rightarrow> svs" where
  "new_entry d k =
     (if d k = None then d(k \<mapsto> \<lparr> total_reads = 0, mated_reads = 0, mate = None \<rparr>) else d)"

definition add_sv_to_dict :: "mut_node list \<Rightarrow> org_node list \<Rightarrow> svs \<Rightarrow> nat \<Rightarrow> bool \<Rightarrow> error + svs" where
  "add_sv_to_dict mh oh d cur isBgn =
     (case get_mated_pos mh oh cur isBgn of
        Inl err \<Rightarrow> Inl err
      | Inr mp \<Rightarrow>
          (case get_cur_pos mh oh cur isBgn of
             Inl err \<Rightarrow> Inl err
           | Inr curTup \<Rightarrow>
               (case mp of
                  None \<Rightarrow> Inr d
                | Some (matePos, mateIsLeft, isAdj) \<Rightarrow>
                    (let mateTup = (matePos, mateIsLeft);
                         d1 = new_entry d curTup;
                         d2 = new_entry d1 mateTup;
                         d3 = upd_entry d2 curTup (\<lambda>v. v\<lparr> total_reads := total_reads v + 1 \<rparr>)
                     in if \<not> isAdj
                        then
                          (let d4 = upd_entry d3 curTup (\<lambda>v. v\<lparr> mated_reads := mated_reads v + 1 \<rparr>);
                               d5 = upd_entry d4 curTup (\<lambda>v. v\<lparr> mate := Some mateTup \<rparr>);
                               d6 = upd_entry d5 mateTup (\<lambda>v. v\<lparr> mate := Some curTup \<rparr>)
                           in Inr d6)
                        else Inr d3))))"

text \<open>
  The loop of \<^verbatim>\<open>get_sv_read_nums\<close> over the sorted centres \<open>ps\<close>: it moves on by at
  most one node for each centre and stops when it leaves the list.
\<close>

fun sv_loop :: "mut_node list \<Rightarrow> org_node list \<Rightarrow> int \<Rightarrow> nat option \<Rightarrow> int list \<Rightarrow> svs \<Rightarrow> error + svs" where
  "sv_loop mh oh d None ps dict = Inr dict"
| "sv_loop mh oh d (Some c) [] dict = Inr dict"
| "sv_loop mh oh d (Some c) (p # ps) dict =
     (let pl = p - d; pr = p + d;
          cur = (if m_end (mh ! c) < p then m_r (mh ! c) else Some c)
      in case cur of
           None \<Rightarrow> Inr dict
         | Some c' \<Rightarrow>
             (case (if is_between (m_bgn (mh ! c')) pl pr
                    then add_sv_to_dict mh oh dict c' True else Inr dict) of
                Inl err \<Rightarrow> Inl err
              | Inr dict1 \<Rightarrow>
                  (case (if is_between (m_end (mh ! c')) pl pr
                         then add_sv_to_dict mh oh dict1 c' False else Inr dict1) of
                     Inl err \<Rightarrow> Inl err
                   | Inr dict2 \<Rightarrow> sv_loop mh oh d (Some c') ps dict2)))"

text \<open>The last loops: every key whose entry has no \<^verbatim>\<open>mate\<close> is deleted.\<close>

definition remove_unmated :: "svs \<Rightarrow> svs" where
  "remove_unmated d =
     (\<lambda>k. case d k of None \<Rightarrow> None | Some v \<Rightarrow> (if mate v = None then None else Some v))"

text \<open>
  \<^verbatim>\<open>get_sv_read_nums\<close>. The centres of the reads are drawn with
  \<^verbatim>\<open>random.choice\<close>; the model takes the list \<open>draws\<close> of the values drawn as an
  argument. How many are drawn is computed in floating point from the coverage
  and is not modelled: the list may have any length.
\<close>

definition get_sv_read_nums :: "chrm_prof \<Rightarrow> int list \<Rightarrow> int \<Rightarrow> error + svs" where
  "get_sv_read_nums s draws read_len =
     (let read_len' = (if read_len mod 2 = 0 then read_len + 1 else read_len);
          ps = sort draws;
          d = read_len' div 2
      in case sv_loop (muts s) (orgs s) d (mut s) ps Map.empty of
           Inl err \<Rightarrow> Inl err
         | Inr dict \<Rightarrow> Inr (remove_unmated dict))"

section \<open>Notions used to state the properties\<close>

text \<open>The profile of \<^verbatim>\<open>ATCCGA\<close> after \<^verbatim>\<open>rem(1, 3)\<close>, used in examples.\<close>

definition deleted_example :: chrm_prof where
  "deleted_example =
     (case rem (create ''ATCCGA'') 1 3 of Inr (s, ok) \<Rightarrow> s | Inl err \<Rightarrow> create ''ATCCGA'')"

fun contig :: "int \<Rightarrow> (int \<times> int) list \<Rightarrow> int \<Rightarrow> bool" where
  "contig lo [] hi = (lo = hi)"
| "contig lo ((b, e) # ivs) hi = (b = lo \<and> b \<le> e \<and> contig (e + 1) ivs hi)"

definition headopt :: "'a list \<Rightarrow> 'a option" where
  "headopt xs = (case xs of [] \<Rightarrow> None | x # ys \<Rightarrow> Some x)"

definition lastopt :: "'a list \<Rightarrow> 'a option" where
  "lastopt xs = headopt (rev xs)"

fun nxt :: "nat list \<Rightarrow> nat \<Rightarrow> nat option" where
  "nxt [] x = None"
| "nxt (y # ys) x = (if x = y then headopt ys else nxt ys x)"

definition prv :: "nat list \<Rightarrow> nat \<Rightarrow> nat option" where
  "prv xs x = nxt (rev xs) x"

definition chain :: "(nat \<Rightarrow> nat option) \<Rightarrow> (nat \<Rightarrow> nat option) \<Rightarrow> nat \<Rightarrow> nat option \<Rightarrow> nat list \<Rightarrow> bool" where
  "chain lf rt n p xs \<longleftrightarrow>
     distinct xs \<and> p = headopt xs \<and>
     (\<forall>x\<in>set xs. x < n \<and> rt x = nxt xs x \<and> lf x = prv xs x)"

fun rpath :: "(nat \<Rightarrow> nat option) \<Rightarrow> nat option \<Rightarrow> nat list \<Rightarrow> bool" where
  "rpath rt p [] = (p = None)"
| "rpath rt p (x # xs) = (p = Some x \<and> rpath rt (rt x) xs)"

definition mseg :: "mut_node list \<Rightarrow> nat \<Rightarrow> int \<times> int" where
  "mseg h x = (m_bgn (h ! x), m_end (h ! x))"

definition oseg :: "org_node list \<Rightarrow> nat \<Rightarrow> int \<times> int" where
  "oseg h x = (o_bgn (h ! x), o_end (h ! x))"

fun ins_after :: "nat \<Rightarrow> nat \<Rightarrow> nat list \<Rightarrow> nat list" where
  "ins_after c n [] = []"
| "ins_after c n (x # xs) = (if x = c then x # n # xs else x # ins_after c n xs)"

abbreviation mchain :: "mut_node list \<Rightarrow> nat option \<Rightarrow> nat list \<Rightarrow> bool" where
  "mchain h p xs \<equiv> chain (\<lambda>x. m_l (h ! x)) (\<lambda>x. m_r (h ! x)) (length h) p xs"

abbreviation ochain :: "org_node list \<Rightarrow> nat option \<Rightarrow> nat list \<Rightarrow> bool" where
  "ochain h p xs \<equiv> chain (\<lambda>x. o_l (h ! x)) (\<lambda>x. o_r (h ! x)) (length h) p xs"

definition par_ok :: "mut_node list \<Rightarrow> org_node list \<Rightarrow> nat list \<Rightarrow> nat list \<Rightarrow> bool" where
  "par_ok mh oh ms os \<longleftrightarrow>
     (\<forall>m\<in>set ms. \<exists>q\<in>set os. m_parent (mh ! m) = Some q \<and>
        m_end (mh ! m) - m_bgn (mh ! m) = o_end (oh ! q) - o_bgn (oh ! q))"

definition kids_ok :: "mut_node list \<Rightarrow> org_node list \<Rightarrow> nat list \<Rightarrow> nat list \<Rightarrow> bool" where
  "kids_ok mh oh ms os \<longleftrightarrow>
     (\<forall>q\<in>set os. distinct (o_children (oh ! q)) \<and>
        set (o_children (oh ! q)) = {m \<in> set ms. m_parent (mh ! m) = Some q})"

definition wf :: "nat \<Rightarrow> chrm_prof \<Rightarrow> nat list \<Rightarrow> nat list \<Rightarrow> bool" where
  "wf N s ms os \<longleftrightarrow>
     mchain (muts s) (mut s) ms \<and> ochain (orgs s) (Some (org s)) os \<and>
     contig 0 (map (mseg (muts s)) ms) (int (length (chrm s))) \<and>
     contig 0 (map (oseg (orgs s)) os) (int N) \<and>
     par_ok (muts s) (orgs s) ms os \<and> kids_ok (muts s) (orgs s) ms os"

text \<open>facts about one step of the children loop\<close>

definition split_step :: "mut_node list \<Rightarrow> nat \<Rightarrow> nat \<Rightarrow> int \<Rightarrow> mut_node list" where
  "split_step mh c o2 k =
     (let (mh1, n) = mut_split mh c k in mh1[n := (mh1 ! n)\<lparr> m_parent := Some o2 \<rparr>])"

definition split_inv ::
  "nat option \<Rightarrow> int \<Rightarrow> nat \<Rightarrow> int \<Rightarrow> nat list \<Rightarrow> nat \<Rightarrow> nat \<Rightarrow> int \<Rightarrow> int \<Rightarrow>
   mut_node list \<Rightarrow> org_node list \<Rightarrow> nat list \<Rightarrow> nat list \<Rightarrow> bool" where
  "split_inv p M og N os o1 o2 k D mh oh ms cs \<longleftrightarrow>
     mchain mh p ms \<and> contig 0 (map (mseg mh) ms) M \<and>
     ochain oh (Some og) os \<and> contig 0 (map (oseg oh) os) N \<and>
     distinct cs \<and> set cs \<subseteq> set ms \<and>
     (\<forall>c\<in>set cs. m_end (mh ! c) - m_bgn (mh ! c) = D \<and> m_parent (mh ! c) = Some o1) \<and>
     0 < k \<and> k \<le> D \<and>
     (\<forall>m\<in>set ms - set cs. \<exists>q\<in>set os. m_parent (mh ! m) = Some q \<and>
        m_end (mh ! m) - m_bgn (mh ! m) = o_end (oh ! q) - o_bgn (oh ! q)) \<and>
     kids_ok mh oh ms os \<and>
     o1 \<in> set os \<and> o2 \<in> set os \<and> o1 \<noteq> o2 \<and>
     o_end (oh ! o1) - o_bgn (oh ! o1) = k - 1 \<and>
     o_end (oh ! o2) - o_bgn (oh ! o2) = D - k"

definition flip_node :: "int \<Rightarrow> int \<Rightarrow> mut_node \<Rightarrow> mut_node" where
  "flip_node rb re nd =
     nd\<lparr> m_l := m_r nd, m_r := m_l nd,
         m_bgn := m_bgn nd + get_inv_pos_diff rb re (m_bgn nd) (m_end nd),
         m_end := m_end nd + get_inv_pos_diff rb re (m_bgn nd) (m_end nd),
         m_is_inv := \<not> m_is_inv nd \<rparr>"

fun flip_list :: "int \<Rightarrow> int \<Rightarrow> mut_node list \<Rightarrow> nat list \<Rightarrow> mut_node list" where
  "flip_list rb re h [] = h"
| "flip_list rb re h (c # cs) = flip_list rb re (h[c := flip_node rb re (h ! c)]) cs"

fun rseg :: "(nat \<Rightarrow> nat option) \<Rightarrow> nat option \<Rightarrow> nat list \<Rightarrow> nat option \<Rightarrow> bool" where
  "rseg rt p [] q = (p = q)"
| "rseg rt p (x # xs) q = (p = Some x \<and> rseg rt (rt x) xs q)"

fun upd_list :: "('a \<Rightarrow> 'a) \<Rightarrow> 'a list \<Rightarrow> nat list \<Rightarrow> 'a list" where
  "upd_list g h [] = h"
| "upd_list g h (c # cs) = upd_list g (h[c := g (h ! c)]) cs"

definition shift_node :: "int \<Rightarrow> mut_node \<Rightarrow> mut_node" where
  "shift_node d nd = nd\<lparr> m_bgn := m_bgn nd + d, m_end := m_end nd + d \<rparr>"

fun dereg :: "mut_node list \<Rightarrow> org_node list \<Rightarrow> nat list \<Rightarrow> org_node list" where
  "dereg mh oh [] = oh"
| "dereg mh oh (c # cs) =
     (case m_parent (mh ! c) of
        None \<Rightarrow> oh
      | Some p \<Rightarrow> dereg mh (oh[p := (oh ! p)\<lparr> o_children := remove1 c (o_children (oh ! p)) \<rparr>]) cs)"

fun mk_copies :: "mut_node list \<Rightarrow> nat list \<Rightarrow> nat option \<Rightarrow> nat \<Rightarrow> mut_node list" where
  "mk_copies h [] prev n = []"
| "mk_copies h (x # xs) prev n =
     (h ! x)\<lparr> m_l := prev, m_r := (if xs = [] then None else Some (Suc n)) \<rparr>
       # mk_copies h xs (Some n) (Suc n)"

fun reg :: "mut_node list \<Rightarrow> org_node list \<Rightarrow> nat list \<Rightarrow> nat \<Rightarrow> org_node list" where
  "reg mh oh [] n = oh"
| "reg mh oh (x # xs) n =
     (case m_parent (mh ! x) of
        None \<Rightarrow> oh
      | Some p \<Rightarrow> reg mh (oh[p := (oh ! p)\<lparr> o_children := o_children (oh ! p) @ [n] \<rparr>]) xs (Suc n))"

inductive reachable :: "string \<Rightarrow> chrm_prof \<Rightarrow> bool" for c :: string where
  init: "reachable c (create c)"
| inv: "reachable c s \<Longrightarrow> inv_op s b e = Inr (s', ok) \<Longrightarrow> reachable c s'"
| del: "reachable c s \<Longrightarrow> rem s b e = Inr (s', ok) \<Longrightarrow> reachable c s'"
| dup: "reachable c s \<Longrightarrow> amp s b e = Inr (s', ok) \<Longrightarrow> reachable c s'"

fun walk :: "nat \<Rightarrow> (nat \<Rightarrow> nat option) \<Rightarrow> nat option \<Rightarrow> error + nat list" where
  "walk 0 rt cur = Inl Diverged"
| "walk (Suc f) rt None = Inr []"
| "walk (Suc f) rt (Some c) =
     (case walk f rt (rt c) of Inl err \<Rightarrow> Inl err | Inr xs \<Rightarrow> Inr (c # xs))"

definition mut_nodes :: "chrm_prof \<Rightarrow> error + nat list" where
  "mut_nodes s = walk (Suc (length (muts s))) (\<lambda>x. m_r (muts s ! x)) (mut s)"

definition org_nodes :: "chrm_prof \<Rightarrow> error + nat list" where
  "org_nodes s = walk (Suc (length (orgs s))) (\<lambda>x. o_r (orgs s ! x)) (Some (org s))"

fun tiles :: "int \<Rightarrow> (int \<times> int) list \<Rightarrow> int \<Rightarrow> bool" where
  "tiles lo [] hi = (lo = hi)"
| "tiles lo ((b, e) # ivs) hi = (b = lo \<and> tiles (e + 1) ivs hi)"

definition seg_len :: "int \<times> int \<Rightarrow> int" where
  "seg_len iv = snd iv - fst iv + 1"

section \<open>Reads over breakpoints: properties\<close>

lemma remove_unmated_mate: "remove_unmated d k = Some v \<Longrightarrow> mate v \<noteq> None \<and> d k = Some v"
  by (auto simp: remove_unmated_def split: option.splits if_splits)

text \<open>
  Claim C8. Every key of the dictionary that \<^verbatim>\<open>get_sv_read_nums\<close> returns has an
  entry with a mate: the returned dictionary is the one the sampling loop built,
  without the keys whose entry never got a mate.
\<close>

theorem sv_reads_only_mated:
  assumes "get_sv_read_nums s draws read_len = Inr d"
  shows "(\<forall>k v. d k = Some v \<longrightarrow> (\<exists>m. mate v = Some m)) \<and>
         (\<exists>d0. sv_loop (muts s) (orgs s)
                  ((if read_len mod 2 = 0 then read_len + 1 else read_len) div 2)
                  (mut s) (sort draws) Map.empty = Inr d0 \<and>
               (\<forall>k. d k = (case d0 k of None \<Rightarrow> None
                                | Some v \<Rightarrow> (if mate v = None then None else Some v))))"
proof -
  let ?d = "(if read_len mod 2 = 0 then read_len + 1 else read_len) div 2"
  from assms obtain d0 where
    loop: "sv_loop (muts s) (orgs s) ?d (mut s) (sort draws) Map.empty = Inr d0"
    and d: "d = remove_unmated d0"
    by (auto simp: get_sv_read_nums_def Let_def split: sum.splits)
  have "\<forall>k v. d k = Some v \<longrightarrow> (\<exists>m. mate v = Some m)"
    using d remove_unmated_mate by fastforce
  moreover have "\<forall>k. d k = (case d0 k of None \<Rightarrow> None
                                | Some v \<Rightarrow> (if mate v = None then None else Some v))"
    using d by (simp add: remove_unmated_def)
  ultimately show ?thesis using loop by blast
qed

theorem sv_reads_only_mated_witness:
  "\<exists>d. get_sv_read_nums deleted_example [1] 3 = Inr d \<and>
       d (4, False) = Some \<lparr> total_reads = 1, mated_reads = 1, mate = Some (0, True) \<rparr> \<and>
       (\<exists>m. mate (the (d (4, False))) = Some m)"
proof -
  have "case get_sv_read_nums deleted_example [1] 3 of
          Inr d \<Rightarrow> d (4, False) = Some \<lparr> total_reads = 1, mated_reads = 1, mate = Some (0, True) \<rparr>
        | Inl err \<Rightarrow> False"
    by code_simp
  then obtain d where d: "get_sv_read_nums deleted_example [1] 3 = Inr d"
    and v: "d (4, False) = Some \<lparr> total_reads = 1, mated_reads = 1, mate = Some (0, True) \<rparr>"
    by (auto split: sum.splits)
  from sv_reads_only_mated [OF d] v have "\<exists>m. mate (the (d (4, False))) = Some m"
    by fastforce
  with d v show ?thesis by blast
qed

text \<open>
  Claim C2 says that a read over a rearranged junction adds one to the mated
  reads of both breakpoints of the junction, as the comment above
  \<^verbatim>\<open>get_sv_read_nums\<close> defines the counter (reads containing this breakpoint and
  its mate). The code does not do so. After \<^verbatim>\<open>rem(1, 3)\<close> on \<^verbatim>\<open>ATCCGA\<close> the
  junction between original positions 0 and 4 is a rearrangement. One read of
  length 3 centred at position 1 covers positions 0 to 2 and so contains both
  breakpoints: the entry of \<open>(4, False)\<close> counts one mated read, the entry of
  its mate \<open>(0, True)\<close> gets the link and counts none, because
  \<^verbatim>\<open>_add_sv_to_dict\<close> increments the counters of \<^verbatim>\<open>curTup\<close> only.
\<close>

theorem mate_counter_counterexample:
  "case get_sv_read_nums deleted_example [1] 3 of
     Inr d \<Rightarrow> d (4, False) = Some \<lparr> total_reads = 1, mated_reads = 1, mate = Some (0, True) \<rparr> \<and>
              d (0, True) = Some \<lparr> total_reads = 0, mated_reads = 0, mate = Some (4, False) \<rparr>
   | Inl err \<Rightarrow> False"
  by code_simp

section \<open>The operators: behaviour on concrete profiles\<close>

text \<open>
  Claim C5 says that a call that is in bounds and passes \<^verbatim>\<open>_is_splitable\<close> changes
  the profile and returns \<^verbatim>\<open>True\<close>. On \<^verbatim>\<open>ATCCGA\<close> the region \<open>(5, 5)\<close> is in bounds
  and passes, yet \<^verbatim>\<open>_split(5)\<close> does nothing, because 5 is the last position of
  the node that holds it, and each operator then fails on the node it does not
  find: \<^verbatim>\<open>inv\<close> and \<^verbatim>\<open>rem\<close> raise \<^verbatim>\<open>AttributeError\<close>, \<^verbatim>\<open>amp\<close> raises
  \<^verbatim>\<open>TypeError\<close>.
\<close>

theorem split_at_last_position_raises:
  "is_in_bounds (create ''ATCCGA'') 5 5 \<and>
   is_splitable (create ''ATCCGA'') 5 5 = Inr True \<and>
   split_at (create ''ATCCGA'') 5 = Inr (create ''ATCCGA'') \<and>
   inv_op (create ''ATCCGA'') 5 5 = Inl AttributeError \<and>
   rem (create ''ATCCGA'') 5 5 = Inl AttributeError \<and>
   amp (create ''ATCCGA'') 5 5 = Inl TypeError"
  by code_simp

lemma headopt_simps [simp]: "headopt [] = None" "headopt (x # xs) = Some x"
  by (simp_all add: headopt_def)

lemma lastopt_simps [simp]: "lastopt [] = None" "lastopt (xs @ [x]) = Some x"
  by (simp_all add: lastopt_def)

lemma headopt_append: "headopt (xs @ ys) = (if xs = [] then headopt ys else headopt xs)"
  by (cases xs) auto

lemma lastopt_append: "lastopt (xs @ ys) = (if ys = [] then lastopt xs else lastopt ys)"
  by (simp add: lastopt_def headopt_append)

lemma lastopt_Cons: "lastopt (x # xs) = (if xs = [] then Some x else lastopt xs)"
  by (simp add: lastopt_def headopt_append)

lemma headopt_rev [simp]: "headopt (rev xs) = lastopt xs"
  by (simp add: lastopt_def)

lemma lastopt_rev [simp]: "lastopt (rev xs) = headopt xs"
  by (simp add: lastopt_def)

lemma headopt_eq_None [simp]: "headopt xs = None \<longleftrightarrow> xs = []"
  by (cases xs) auto

lemma lastopt_eq_None [simp]: "lastopt xs = None \<longleftrightarrow> xs = []"
  using headopt_eq_None [of "rev xs"] by (simp only: lastopt_def rev_is_Nil_conv)

lemma nxt_notin [simp]: "x \<notin> set xs \<Longrightarrow> nxt xs x = None"
  by (induction xs) auto

lemma nxt_append_notin [simp]: "x \<notin> set A \<Longrightarrow> nxt (A @ B) x = nxt B x"
  by (induction A) auto

lemma nxt_append_in:
  "x \<in> set A \<Longrightarrow> x \<notin> set B \<Longrightarrow> distinct A \<Longrightarrow>
   nxt (A @ B) x = (if lastopt A = Some x then headopt B else nxt A x)"
proof (induction A)
  case Nil then show ?case by simp
next
  case (Cons a A)
  show ?case
  proof (cases "x = a")
    case True
    with Cons.prems have "a \<notin> set A" by simp
    then have "lastopt (a # A) = Some a \<longleftrightarrow> A = []"
      by (cases A rule: rev_cases) (auto simp: lastopt_Cons)
    with True show ?thesis by (auto simp: headopt_append)
  next
    case False
    with Cons.prems have xA: "x \<in> set A" and d: "distinct A" by auto
    then have "A \<noteq> []" by auto
    with False Cons.IH [OF xA Cons.prems(2) d] show ?thesis
      by (simp add: lastopt_Cons)
  qed
qed

lemma prv_notin [simp]: "x \<notin> set xs \<Longrightarrow> prv xs x = None"
  by (simp add: prv_def)

lemma prv_append_notin [simp]: "x \<notin> set B \<Longrightarrow> prv (A @ B) x = prv A x"
  by (simp add: prv_def)

lemma prv_append_in:
  "x \<in> set B \<Longrightarrow> x \<notin> set A \<Longrightarrow> distinct B \<Longrightarrow>
   prv (A @ B) x = (if headopt B = Some x then lastopt A else prv B x)"
  using nxt_append_in [of x "rev B" "rev A"] by (simp add: prv_def)

lemma prv_rev [simp]: "prv (rev xs) x = nxt xs x"
  by (simp add: prv_def)

lemma nxt_rev [simp]: "nxt (rev xs) x = prv xs x"
  by (simp only: prv_def)

lemma prv_Cons:
  "distinct (y # ys) \<Longrightarrow> prv (y # ys) x = (if x = y then None else if headopt ys = Some x then Some y else prv ys x)"
proof -
  assume d: "distinct (y # ys)"
  have eq: "prv (y # ys) x = nxt (rev ys @ [y]) x" by (simp only: prv_def rev.simps)
  show ?thesis
  proof (cases "x \<in> set ys")
    case True
    with d have "x \<noteq> y" by auto
    with True d nxt_append_in [of x "rev ys" "[y]"] show ?thesis
      unfolding eq by simp
  next
    case False
    then have "headopt ys \<noteq> Some x" by (cases ys) auto
    with False show ?thesis unfolding eq by simp
  qed
qed

lemma contig_append: "contig lo (xs @ ys) hi \<longleftrightarrow> (\<exists>mid. contig lo xs mid \<and> contig mid ys hi)"
  by (induction xs arbitrary: lo) auto

lemma contig_le: "contig lo xs hi \<Longrightarrow> lo \<le> hi"
proof (induction xs arbitrary: lo)
  case (Cons iv xs)
  obtain b e where iv: "iv = (b, e)" by (cases iv)
  with Cons.prems have "b = lo" "b \<le> e" "contig (e + 1) xs hi" by auto
  with Cons.IH [of "e + 1"] show ?case by simp
qed simp

lemma contig_lt: "contig lo xs hi \<Longrightarrow> xs \<noteq> [] \<Longrightarrow> lo < hi"
proof -
  assume c: "contig lo xs hi" and ne: "xs \<noteq> []"
  then obtain b e ys where xs: "xs = (b, e) # ys" by (cases xs) auto
  with c have "b = lo" "b \<le> e" "contig (e + 1) ys hi" by auto
  with contig_le [of "e + 1" ys hi] show ?thesis by simp
qed

lemma rpath_nxt:
  "distinct xs \<Longrightarrow> \<forall>x\<in>set xs. rt x = nxt xs x \<Longrightarrow> rpath rt (headopt xs) xs"
proof (induction xs)
  case Nil then show ?case by simp
next
  case (Cons y ys)
  have "\<forall>x\<in>set ys. rt x = nxt ys x" using Cons.prems by auto
  with Cons show ?case by auto
qed

lemma chain_rpath: "chain lf rt n p xs \<Longrightarrow> rpath rt p xs"
  by (auto simp: chain_def intro: rpath_nxt)

lemma chain_rpath_suffix:
  assumes "chain lf rt n p (pre @ x # post)"
  shows "rpath rt (Some x) (x # post)"
proof -
  from assms have d: "distinct (x # post)" and dis: "set pre \<inter> set (x # post) = {}"
    and r: "\<forall>z\<in>set (x # post). rt z = nxt (pre @ x # post) z"
    by (auto simp: chain_def)
  have "\<forall>z\<in>set (x # post). rt z = nxt (x # post) z"
  proof
    fix z assume z: "z \<in> set (x # post)"
    with dis have "z \<notin> set pre" by auto
    then have "nxt (pre @ x # post) z = nxt (x # post) z" by (rule nxt_append_notin)
    with r z show "rt z = nxt (x # post) z" by metis
  qed
  from rpath_nxt [OF d this] show ?thesis by simp
qed

lemma seek_rpath:
  "rpath (\<lambda>x. m_r (h ! x)) p xs \<Longrightarrow> length xs < f \<Longrightarrow>
   seek f h P p = Inr (find (\<lambda>x. P (h ! x)) xs)"
proof (induction xs arbitrary: p f)
  case Nil then show ?case by (cases f) auto
next
  case (Cons x xs)
  then obtain f' where f: "f = Suc f'" by (cases f) auto
  with Cons show ?case by auto
qed

lemma chain_length: "chain lf rt n p xs \<Longrightarrow> length xs \<le> n"
proof -
  assume "chain lf rt n p xs"
  then have d: "distinct xs" and s: "set xs \<subseteq> {..<n}" by (auto simp: chain_def)
  have "length xs = card (set xs)" using d by (simp add: distinct_card)
  also have "\<dots> \<le> card {..<n}" using s by (intro card_mono) auto
  finally show ?thesis by simp
qed

lemma headopt_in: "headopt xs = Some x \<Longrightarrow> x \<in> set xs"
  by (cases xs) auto

lemma nxt_in: "nxt xs c = Some x \<Longrightarrow> x \<in> set xs"
  by (induction xs) (auto split: if_splits dest: headopt_in)

lemma set_ins_after: "c \<in> set xs \<Longrightarrow> set (ins_after c n xs) = insert n (set xs)"
  by (induction xs) auto

lemma ins_after_notin [simp]: "c \<notin> set xs \<Longrightarrow> ins_after c n xs = xs"
  by (induction xs) auto

lemma distinct_ins_after: "distinct xs \<Longrightarrow> n \<notin> set xs \<Longrightarrow> distinct (ins_after c n xs)"
proof (induction xs)
  case (Cons x xs)
  then show ?case by (cases "c \<in> set xs") (auto simp: set_ins_after)
qed simp

lemma headopt_ins_after [simp]: "headopt (ins_after c n xs) = headopt xs"
  by (cases xs) auto

lemma ins_after_decomp:
  "distinct (A @ c # B) \<Longrightarrow> ins_after c n (A @ c # B) = A @ c # n # B"
  by (induction A) auto

lemma nxt_ins_after:
  "distinct xs \<Longrightarrow> c \<in> set xs \<Longrightarrow> n \<notin> set xs \<Longrightarrow>
   nxt (ins_after c n xs) x = (if x = c then Some n else if x = n then nxt xs c else nxt xs x)"
proof (induction xs)
  case Nil then show ?case by simp
next
  case (Cons y ys)
  show ?case
  proof (cases "y = c")
    case True
    with Cons.prems show ?thesis by auto
  next
    case False
    with Cons.prems have c: "c \<in> set ys" and d: "distinct ys" and n: "n \<notin> set ys" 
      and yn: "y \<noteq> n" and y: "y \<notin> set ys" by auto
    from c have ne: "ys \<noteq> []" by auto
    have h: "headopt (ins_after c n ys) = headopt ys" by simp
    from Cons.IH [OF d c n] False yn c show ?thesis by (auto simp: h)
  qed
qed

lemma lastopt_ins_after:
  "distinct xs \<Longrightarrow> c \<in> set xs \<Longrightarrow>
   lastopt (ins_after c n xs) = (if lastopt xs = Some c then Some n else lastopt xs)"
proof (induction xs)
  case Nil then show ?case by simp
next
  case (Cons y ys)
  show ?case
  proof (cases "y = c")
    case True
    with Cons.prems have "c \<notin> set ys" by simp
    then have "lastopt ys \<noteq> Some c" by (cases ys rule: rev_cases) auto
    with True show ?thesis by (auto simp: lastopt_Cons)
  next
    case False
    with Cons.prems have c: "c \<in> set ys" and d: "distinct ys" by auto
    then have "ys \<noteq> []" "ins_after c n ys \<noteq> []" by (auto simp: set_ins_after dest: arg_cong [where f = set])
    with Cons.IH [OF d c] False show ?thesis by (simp add: lastopt_Cons)
  qed
qed

lemma prv_ins_after:
  "distinct xs \<Longrightarrow> c \<in> set xs \<Longrightarrow> n \<notin> set xs \<Longrightarrow>
   prv (ins_after c n xs) x = (if x = n then Some c else if nxt xs c = Some x then Some n else prv xs x)"
proof (induction xs)
  case Nil then show ?case by simp
next
  case (Cons y ys)
  show ?case
  proof (cases "y = c")
    case True
    with Cons.prems have d: "distinct (c # n # ys)" and d2: "distinct (n # ys)" and d3: "distinct (c # ys)" by auto
    show ?thesis using True Cons.prems
      by (auto simp: prv_Cons [OF d] prv_Cons [OF d2] prv_Cons [OF d3] dest: headopt_in)
  next
    case False
    with Cons.prems have c: "c \<in> set ys" and d: "distinct ys" and n: "n \<notin> set ys"
      and yn: "y \<noteq> n" and y: "y \<notin> set ys" by auto
    have d1: "distinct (y # ins_after c n ys)"
      using distinct_ins_after [OF d n] y yn c by (auto simp: set_ins_after)
    have d2: "distinct (y # ys)" using d y by simp
    have nc: "nxt ys c \<noteq> Some y"
      using nxt_in [of ys c y] y by auto
    have hx: "nxt ys c \<noteq> Some x \<and> x \<noteq> n" if hx: "headopt ys = Some x" for x
    proof -
      from hx obtain zs where ys: "ys = x # zs" by (cases ys) auto
      with d have xz: "x \<notin> set zs" by simp
      have "nxt (x # zs) c \<noteq> Some x"
        using xz nxt_in [of zs c x] headopt_in [of zs x] by (auto split: if_splits)
      then show ?thesis using n ys by auto
    qed
    show ?thesis
      using False Cons.IH [OF d c n] yn nc hx
      by (auto simp: prv_Cons [OF d1] prv_Cons [OF d2])
  qed
qed

lemma chain_ins_after:
  assumes ch: "chain lf rt N p xs" and c: "c \<in> set xs" and n: "N \<le> n" "n < N'"
    and rt': "\<forall>x\<in>insert n (set xs). rt' x = (if x = n then rt c else if x = c then Some n else rt x)"
    and lf': "\<forall>x\<in>insert n (set xs). lf' x = (if x = n then Some c else if rt c = Some x then Some n else lf x)"
  shows "chain lf' rt' N' p (ins_after c n xs)"
proof -
  from ch have d: "distinct xs" and p: "p = headopt xs"
    and nodes: "\<forall>x\<in>set xs. x < N \<and> rt x = nxt xs x \<and> lf x = prv xs x"
    by (auto simp: chain_def)
  from nodes n have nn: "n \<notin> set xs" by auto
  have rc: "rt c = nxt xs c" using nodes c by simp
  have "\<forall>x\<in>set (ins_after c n xs). x < N' \<and> rt' x = nxt (ins_after c n xs) x \<and> lf' x = prv (ins_after c n xs) x"
  proof
    fix x assume "x \<in> set (ins_after c n xs)"
    then have x: "x \<in> insert n (set xs)" using c by (simp add: set_ins_after)
    have "x < N'" using x nodes n by auto
    moreover have "rt' x = nxt (ins_after c n xs) x"
      using x rt' nodes nn rc c by (auto simp: nxt_ins_after [OF d c nn])
    moreover have "lf' x = prv (ins_after c n xs) x"
      using x lf' nodes nn rc c by (auto simp: prv_ins_after [OF d c nn])
    ultimately show "x < N' \<and> rt' x = nxt (ins_after c n xs) x \<and> lf' x = prv (ins_after c n xs) x"
      by blast
  qed
  with distinct_ins_after [OF d nn] p show ?thesis by (simp add: chain_def)
qed

lemma mut_split_length: "length (fst (mut_split h c k)) = Suc (length h)"
  by (simp add: mut_split_def Let_def split: option.splits)

lemma mut_split_snd: "snd (mut_split h c k) = length h"
  by (simp add: mut_split_def Let_def)

lemma mut_split_nth:
  assumes c: "c < length h" and r: "\<forall>y. m_r (h ! c) = Some y \<longrightarrow> y < length h \<and> y \<noteq> c"
    and x: "x \<le> length h"
  shows "fst (mut_split h c k) ! x =
     (if x = length h
      then \<lparr> m_parent = None, m_l = Some c, m_r = m_r (h ! c),
             m_bgn = m_bgn (h ! c) + k, m_end = m_end (h ! c), m_is_inv = m_is_inv (h ! c) \<rparr>
      else if x = c then (h ! c)\<lparr> m_r := Some (length h), m_end := m_bgn (h ! c) + k - 1 \<rparr>
      else if m_r (h ! c) = Some x then (h ! x)\<lparr> m_l := Some (length h) \<rparr>
      else h ! x)"
  using c r x
  by (cases "m_r (h ! c)")
     (auto simp: mut_split_def Let_def nth_append nth_list_update)

lemma org_split_length: "length (fst (org_split h c k)) = Suc (length h)"
  by (simp add: org_split_def Let_def split: option.splits)

lemma org_split_snd: "snd (org_split h c k) = length h"
  by (simp add: org_split_def Let_def)

lemma org_split_nth:
  assumes c: "c < length h" and r: "\<forall>y. o_r (h ! c) = Some y \<longrightarrow> y < length h \<and> y \<noteq> c"
    and x: "x \<le> length h"
  shows "fst (org_split h c k) ! x =
     (if x = length h
      then \<lparr> o_children = [], o_l = Some c, o_r = o_r (h ! c),
             o_bgn = o_bgn (h ! c) + k, o_end = o_end (h ! c) \<rparr>
      else if x = c then (h ! c)\<lparr> o_r := Some (length h), o_end := o_bgn (h ! c) + k - 1 \<rparr>
      else if o_r (h ! c) = Some x then (h ! x)\<lparr> o_l := Some (length h) \<rparr>
      else h ! x)"
  using c r x
  by (cases "o_r (h ! c)")
     (auto simp: org_split_def Let_def nth_append nth_list_update)

lemma chain_nxt_props:
  assumes "chain lf rt N p xs" "c \<in> set xs"
  shows "\<forall>y. rt c = Some y \<longrightarrow> y < N \<and> y \<noteq> c \<and> y \<in> set xs"
proof (intro allI impI)
  fix y assume "rt c = Some y"
  with assms have n: "nxt xs c = Some y" and d: "distinct xs" and b: "\<forall>x\<in>set xs. x < N"
    by (auto simp: chain_def)
  from n have y: "y \<in> set xs" by (rule nxt_in)
  have "y \<noteq> c"
  proof
    assume "y = c"
    with n have "nxt xs c = Some c" by simp
    with d show False
    proof (induction xs)
      case (Cons a xs)
      then show ?case using headopt_in [of xs c] nxt_in [of xs c c]
        by (auto split: if_splits)
    qed simp
  qed
  with y b show "y < N \<and> y \<noteq> c \<and> y \<in> set xs" by auto
qed

lemma mchain_mut_split:
  assumes ch: "mchain h p xs" and c: "c \<in> set xs"
  shows "mchain (fst (mut_split h c k)) p (ins_after c (length h) xs)"
proof -
  let ?h' = "fst (mut_split h c k)"
  from ch c have cl: "c < length h" and b: "\<forall>x\<in>set xs. x < length h" by (auto simp: chain_def)
  from chain_nxt_props [OF ch c]
  have r: "\<forall>y. m_r (h ! c) = Some y \<longrightarrow> y < length h \<and> y \<noteq> c" by blast
  have nth: "x \<le> length h \<Longrightarrow> ?h' ! x =
     (if x = length h
      then \<lparr> m_parent = None, m_l = Some c, m_r = m_r (h ! c),
             m_bgn = m_bgn (h ! c) + k, m_end = m_end (h ! c), m_is_inv = m_is_inv (h ! c) \<rparr>
      else if x = c then (h ! c)\<lparr> m_r := Some (length h), m_end := m_bgn (h ! c) + k - 1 \<rparr>
      else if m_r (h ! c) = Some x then (h ! x)\<lparr> m_l := Some (length h) \<rparr>
      else h ! x)" for x
    by (rule mut_split_nth [OF cl r])
  show ?thesis
  proof (rule chain_ins_after [OF ch c])
    show "length h \<le> length h" by simp
    show "length h < length ?h'" by (simp add: mut_split_length)
    show "\<forall>x\<in>insert (length h) (set xs). m_r (?h' ! x) =
            (if x = length h then m_r (h ! c) else if x = c then Some (length h) else m_r (h ! x))"
      using b cl by (auto simp: nth)
    show "\<forall>x\<in>insert (length h) (set xs). m_l (?h' ! x) =
            (if x = length h then Some c else if m_r (h ! c) = Some x then Some (length h) else m_l (h ! x))"
      using b cl r by (auto simp: nth)
  qed
qed

lemma ochain_org_split:
  assumes ch: "ochain h p xs" and c: "c \<in> set xs"
  shows "ochain (fst (org_split h c k)) p (ins_after c (length h) xs)"
proof -
  let ?h' = "fst (org_split h c k)"
  from ch c have cl: "c < length h" and b: "\<forall>x\<in>set xs. x < length h" by (auto simp: chain_def)
  from chain_nxt_props [OF ch c]
  have r: "\<forall>y. o_r (h ! c) = Some y \<longrightarrow> y < length h \<and> y \<noteq> c" by blast
  have nth: "x \<le> length h \<Longrightarrow> ?h' ! x =
     (if x = length h
      then \<lparr> o_children = [], o_l = Some c, o_r = o_r (h ! c),
             o_bgn = o_bgn (h ! c) + k, o_end = o_end (h ! c) \<rparr>
      else if x = c then (h ! c)\<lparr> o_r := Some (length h), o_end := o_bgn (h ! c) + k - 1 \<rparr>
      else if o_r (h ! c) = Some x then (h ! x)\<lparr> o_l := Some (length h) \<rparr>
      else h ! x)" for x
    by (rule org_split_nth [OF cl r])
  show ?thesis
  proof (rule chain_ins_after [OF ch c])
    show "length h \<le> length h" by simp
    show "length h < length ?h'" by (simp add: org_split_length)
    show "\<forall>x\<in>insert (length h) (set xs). o_r (?h' ! x) =
            (if x = length h then o_r (h ! c) else if x = c then Some (length h) else o_r (h ! x))"
      using b cl by (auto simp: nth)
    show "\<forall>x\<in>insert (length h) (set xs). o_l (?h' ! x) =
            (if x = length h then Some c else if o_r (h ! c) = Some x then Some (length h) else o_l (h ! x))"
      using b cl r by (auto simp: nth)
  qed
qed

lemma chain_cong:
  assumes "chain lf rt N p xs" "N \<le> N'" "\<forall>x\<in>set xs. lf' x = lf x \<and> rt' x = rt x"
  shows "chain lf' rt' N' p xs"
  using assms by (fastforce simp: chain_def)

lemma contig_ins_after:
  assumes "distinct xs" "c \<in> set xs" "n \<notin> set xs" "contig lo (map sg xs) hi"
    and "sg c = (b, e)" "sg' c = (b, m)" "sg' n = (m + 1, e)" "b \<le> m" "m + 1 \<le> e"
    and "\<forall>x\<in>set xs. x \<noteq> c \<longrightarrow> sg' x = sg x"
  shows "contig lo (map sg' (ins_after c n xs)) hi"
  using assms(1-4,10)
proof (induction xs arbitrary: lo)
  case Nil then show ?case by simp
next
  case (Cons y ys)
  show ?case
  proof (cases "y = c")
    case True
    with Cons.prems have "c \<notin> set ys" by simp
    then have m: "map sg' ys = map sg ys" using Cons.prems(5) by auto
    show ?thesis using True Cons.prems assms(5-9) by (auto simp: m)
  next
    case False
    obtain b' e' where sy: "sg y = (b', e')" by (cases "sg y")
    with False Cons.prems have "sg' y = (b', e')" by auto
    moreover from sy Cons.prems have "b' = lo" "b' \<le> e'" "contig (e' + 1) (map sg ys) hi" by auto
    moreover from False Cons.prems have "distinct ys" "c \<in> set ys" "n \<notin> set ys" 
       "\<forall>x\<in>set ys. x \<noteq> c \<longrightarrow> sg' x = sg x" by auto
    ultimately show ?thesis using False Cons.IH [of "e' + 1"] by auto
  qed
qed

lemma split_children_Cons:
  "split_children mh oh o2 k (c # cs) =
     split_children (split_step mh c o2 k)
       (oh[o2 := (oh ! o2)\<lparr> o_children := o_children (oh ! o2) @ [length mh] \<rparr>]) o2 k cs"
  by (simp add: split_step_def split_beta mut_split_snd Let_def)

lemma split_step_length: "length (split_step mh c o2 k) = Suc (length mh)"
  by (simp add: split_step_def split_beta mut_split_length)

lemma split_step_nth:
  assumes c: "c < length mh" and r: "\<forall>y. m_r (mh ! c) = Some y \<longrightarrow> y < length mh \<and> y \<noteq> c"
    and x: "x \<le> length mh"
  shows "split_step mh c o2 k ! x =
     (if x = length mh
      then \<lparr> m_parent = Some o2, m_l = Some c, m_r = m_r (mh ! c),
             m_bgn = m_bgn (mh ! c) + k, m_end = m_end (mh ! c), m_is_inv = m_is_inv (mh ! c) \<rparr>
      else if x = c then (mh ! c)\<lparr> m_r := Some (length mh), m_end := m_bgn (mh ! c) + k - 1 \<rparr>
      else if m_r (mh ! c) = Some x then (mh ! x)\<lparr> m_l := Some (length mh) \<rparr>
      else mh ! x)"
proof -
  have s: "split_step mh c o2 k = (fst (mut_split mh c k))[length mh := (fst (mut_split mh c k) ! length mh)\<lparr> m_parent := Some o2 \<rparr>]"
    by (simp add: split_step_def split_beta mut_split_snd)
  have len: "length mh < length (fst (mut_split mh c k))"
    by (simp add: mut_split_length)
  show ?thesis
  proof (cases "x = length mh")
    case True
    have "split_step mh c o2 k ! x = (fst (mut_split mh c k) ! length mh)\<lparr> m_parent := Some o2 \<rparr>"
      unfolding s True using len by simp
    also have "\<dots> = \<lparr> m_parent = Some o2, m_l = Some c, m_r = m_r (mh ! c),
             m_bgn = m_bgn (mh ! c) + k, m_end = m_end (mh ! c), m_is_inv = m_is_inv (mh ! c) \<rparr>"
      using mut_split_nth [OF c r, of "length mh" k] by simp
    finally show ?thesis using True by simp
  next
    case False
    then have "split_step mh c o2 k ! x = fst (mut_split mh c k) ! x"
      unfolding s by simp
    with False x mut_split_nth [OF c r, of x k] show ?thesis by simp
  qed
qed

lemma upd_parent_l [simp]:
  "m_l (xs[i := (xs ! i)\<lparr> m_parent := v \<rparr>] ! x) = m_l (xs ! x)"
  by (cases "i < length xs"; cases "i = x"; simp add: list_update_beyond)

lemma upd_parent_r [simp]:
  "m_r (xs[i := (xs ! i)\<lparr> m_parent := v \<rparr>] ! x) = m_r (xs ! x)"
  by (cases "i < length xs"; cases "i = x"; simp add: list_update_beyond)

lemma mchain_split_step:
  assumes ch: "mchain mh p ms" and c: "c \<in> set ms"
  shows "mchain (split_step mh c o2 k) p (ins_after c (length mh) ms)"
proof -
  have s: "split_step mh c o2 k = (fst (mut_split mh c k))[length mh := (fst (mut_split mh c k) ! length mh)\<lparr> m_parent := Some o2 \<rparr>]"
    by (simp add: split_step_def split_beta mut_split_snd)
  show ?thesis unfolding s
    by (rule chain_cong [OF mchain_mut_split [OF ch c, of k]]) simp_all
qed

lemma split_inv_done:
  "split_inv p M og N os o1 o2 k D mh oh ms [] \<Longrightarrow>
   mchain mh p ms \<and> contig 0 (map (mseg mh) ms) M \<and>
   ochain oh (Some og) os \<and> contig 0 (map (oseg oh) os) N \<and>
   par_ok mh oh ms os \<and> kids_ok mh oh ms os"
  by (simp add: split_inv_def par_ok_def)

lemma upd_children_o_l [simp]:
  "o_l (oh[i := (oh ! i)\<lparr> o_children := v \<rparr>] ! x) = o_l (oh ! x)"
  by (cases "i < length oh"; cases "i = x"; simp add: list_update_beyond)

lemma upd_children_o_r [simp]:
  "o_r (oh[i := (oh ! i)\<lparr> o_children := v \<rparr>] ! x) = o_r (oh ! x)"
  by (cases "i < length oh"; cases "i = x"; simp add: list_update_beyond)

lemma upd_children_o_bgn [simp]:
  "o_bgn (oh[i := (oh ! i)\<lparr> o_children := v \<rparr>] ! x) = o_bgn (oh ! x)"
  by (cases "i < length oh"; cases "i = x"; simp add: list_update_beyond)

lemma upd_children_o_end [simp]:
  "o_end (oh[i := (oh ! i)\<lparr> o_children := v \<rparr>] ! x) = o_end (oh ! x)"
  by (cases "i < length oh"; cases "i = x"; simp add: list_update_beyond)

lemma upd_children_oseg [simp]:
  "oseg (oh[i := (oh ! i)\<lparr> o_children := v \<rparr>]) = oseg oh"
  by (rule ext) (simp add: oseg_def)

lemma upd_children_children:
  "i < length oh \<Longrightarrow>
   o_children (oh[i := (oh ! i)\<lparr> o_children := v \<rparr>] ! x) = (if x = i then v else o_children (oh ! x))"
  by simp

lemma split_inv_step:
  assumes inv: "split_inv p M og N os o1 o2 k D mh oh ms (c # cs)"
  shows "split_inv p M og N os o1 o2 k D (split_step mh c o2 k)
           (oh[o2 := (oh ! o2)\<lparr> o_children := o_children (oh ! o2) @ [length mh] \<rparr>])
           (ins_after c (length mh) ms) cs"
proof -
  let ?n = "length mh"
  let ?mh = "split_step mh c o2 k"
  let ?oh = "oh[o2 := (oh ! o2)\<lparr> o_children := o_children (oh ! o2) @ [?n] \<rparr>]"
  let ?ms = "ins_after c ?n ms"
  from inv have ch: "mchain mh p ms" and ct: "contig 0 (map (mseg mh) ms) M"
    and och: "ochain oh (Some og) os" and oct: "contig 0 (map (oseg oh) os) N"
    and dcs: "distinct (c # cs)" and sub: "set (c # cs) \<subseteq> set ms"
    and un: "\<forall>c'\<in>set (c # cs). m_end (mh ! c') - m_bgn (mh ! c') = D \<and> m_parent (mh ! c') = Some o1"
    and k: "0 < k" "k \<le> D"
    and pr: "\<forall>m\<in>set ms - set (c # cs). \<exists>q\<in>set os. m_parent (mh ! m) = Some q \<and>
        m_end (mh ! m) - m_bgn (mh ! m) = o_end (oh ! q) - o_bgn (oh ! q)"
    and kd: "kids_ok mh oh ms os"
    and o12: "o1 \<in> set os" "o2 \<in> set os" "o1 \<noteq> o2"
    and l1: "o_end (oh ! o1) - o_bgn (oh ! o1) = k - 1"
    and l2: "o_end (oh ! o2) - o_bgn (oh ! o2) = D - k"
    by (simp_all add: split_inv_def)
  from sub have c: "c \<in> set ms" by simp
  from ch have d: "distinct ms" and b: "\<forall>x\<in>set ms. x < ?n" by (auto simp: chain_def)
  from b have nn: "?n \<notin> set ms" by auto
  from c b have cl: "c < ?n" by simp
  from och o12 have o2l: "o2 < length oh" by (auto simp: chain_def)
  from chain_nxt_props [OF ch c]
  have r: "\<forall>y. m_r (mh ! c) = Some y \<longrightarrow> y < ?n \<and> y \<noteq> c" by blast
  note nth = split_step_nth [OF cl r, of _ o2 k]
  have par: "m_parent (?mh ! x) = (if x = ?n then Some o2 else m_parent (mh ! x))" if "x \<le> ?n" for x
    using that by (simp add: nth)
  have seg: "mseg ?mh x = (if x = ?n then (m_bgn (mh ! c) + k, m_end (mh ! c))
                else if x = c then (m_bgn (mh ! c), m_bgn (mh ! c) + k - 1) else mseg mh x)"
    if "x \<le> ?n" for x
    using that by (simp add: nth mseg_def)
  have sms: "set ?ms = insert ?n (set ms)" using c by (rule set_ins_after)
  from un have cD: "m_end (mh ! c) - m_bgn (mh ! c) = D" and cp: "m_parent (mh ! c) = Some o1" by auto
  have 1: "mchain ?mh p ?ms" using ch c by (rule mchain_split_step)
  have 2: "contig 0 (map (mseg ?mh) ?ms) M"
  proof (rule contig_ins_after [OF d c nn ct])
    show "mseg mh c = (m_bgn (mh ! c), m_end (mh ! c))" by (simp add: mseg_def)
    show "mseg ?mh c = (m_bgn (mh ! c), m_bgn (mh ! c) + k - 1)" using cl by (simp add: seg)
    show "mseg ?mh ?n = (m_bgn (mh ! c) + k - 1 + 1, m_end (mh ! c))" by (simp add: seg)
    show "m_bgn (mh ! c) \<le> m_bgn (mh ! c) + k - 1" using k by simp
    show "m_bgn (mh ! c) + k - 1 + 1 \<le> m_end (mh ! c)" using k cD by simp
    show "\<forall>x\<in>set ms. x \<noteq> c \<longrightarrow> mseg ?mh x = mseg mh x" using b by (auto simp: seg)
  qed
  have 3: "ochain ?oh (Some og) os" using och by (rule chain_cong) simp_all
  have 4: "contig 0 (map (oseg ?oh) os) N" using oct by simp
  have 5: "distinct cs" "set cs \<subseteq> set ?ms" using dcs sub sms by auto
  have 6: "\<forall>c'\<in>set cs. m_end (?mh ! c') - m_bgn (?mh ! c') = D \<and> m_parent (?mh ! c') = Some o1"
  proof
    fix c' assume c': "c' \<in> set cs"
    with sub b dcs have "c' < ?n" "c' \<noteq> c" by auto
    with un c' seg [of c'] par [of c'] show "m_end (?mh ! c') - m_bgn (?mh ! c') = D \<and> m_parent (?mh ! c') = Some o1"
      by (auto simp: mseg_def)
  qed
  have 7: "\<forall>m\<in>set ?ms - set cs. \<exists>q\<in>set os. m_parent (?mh ! m) = Some q \<and>
        m_end (?mh ! m) - m_bgn (?mh ! m) = o_end (?oh ! q) - o_bgn (?oh ! q)"
  proof
    fix m assume m: "m \<in> set ?ms - set cs"
    then have mle: "m \<le> ?n" using sms b by auto
    consider "m = ?n" | "m = c" | "m \<in> set ms - set (c # cs)" using m sms by auto
    then show "\<exists>q\<in>set os. m_parent (?mh ! m) = Some q \<and>
        m_end (?mh ! m) - m_bgn (?mh ! m) = o_end (?oh ! q) - o_bgn (?oh ! q)"
    proof cases
      case 1
      with seg [of m] par [of m] l2 cD o12 show ?thesis by (auto simp: mseg_def)
    next
      case 2
      with seg [of m] par [of m] l1 cD cp cl o12 show ?thesis by (auto simp: mseg_def)
    next
      case 3
      with b have "m < ?n" "m \<noteq> c" by auto
      with seg [of m] par [of m] pr 3 show ?thesis by (auto simp: mseg_def)
    qed
  qed
  have 8: "kids_ok ?mh ?oh ?ms os"
    unfolding kids_ok_def
  proof
    fix q assume q: "q \<in> set os"
    from kd q have dq: "distinct (o_children (oh ! q))"
      and sq: "set (o_children (oh ! q)) = {m \<in> set ms. m_parent (mh ! m) = Some q}"
      by (auto simp: kids_ok_def)
    have pm: "{m \<in> set ?ms. m_parent (?mh ! m) = Some q} =
              (if q = o2 then insert ?n {m \<in> set ms. m_parent (mh ! m) = Some q}
               else {m \<in> set ms. m_parent (mh ! m) = Some q})"
      using b by (auto simp: sms par)
    show "distinct (o_children (?oh ! q)) \<and>
          set (o_children (?oh ! q)) = {m \<in> set ?ms. m_parent (?mh ! m) = Some q}"
    proof (cases "q = o2")
      case True
      have "?n \<notin> set (o_children (oh ! q))" using sq nn by auto
      with True dq sq o2l show ?thesis unfolding pm by simp
    next
      case False
      with dq sq o2l show ?thesis unfolding pm by simp
    qed
  qed
  show ?thesis
    unfolding split_inv_def using 1 2 3 4 5 6 7 8 k o12 l1 l2 by simp
qed

lemma split_children_inv:
  "split_inv p M og N os o1 o2 k D mh oh ms cs \<Longrightarrow>
   \<exists>ms'. split_inv p M og N os o1 o2 k D (fst (split_children mh oh o2 k cs))
            (snd (split_children mh oh o2 k cs)) ms' []"
proof (induction cs arbitrary: mh oh ms)
  case Nil then show ?case by auto
next
  case (Cons c cs)
  from Cons.IH [OF split_inv_step [OF Cons.prems]] show ?case
    by (simp only: split_children_Cons)
qed

lemma contig_find:
  "contig lo ivs hi \<Longrightarrow> lo \<le> k \<Longrightarrow> k < hi \<Longrightarrow> \<exists>(b, e)\<in>set ivs. b \<le> k \<and> k \<le> e"
proof (induction ivs arbitrary: lo)
  case Nil then show ?case by simp
next
  case (Cons iv ivs)
  obtain b e where iv: "iv = (b, e)" by (cases iv)
  with Cons.prems have be: "b = lo" "b \<le> e" and c: "contig (e + 1) ivs hi" by auto
  show ?case
  proof (cases "k \<le> e")
    case True with be iv Cons.prems show ?thesis by auto
  next
    case False
    then have "e + 1 \<le> k" by simp
    from Cons.IH [OF c this Cons.prems(3)] show ?thesis by auto
  qed
qed

lemma seek_mchain:
  assumes "mchain h p xs"
  shows "seek (Suc (length h)) h P p = Inr (find (\<lambda>x. P (h ! x)) xs)"
  using seek_rpath [OF chain_rpath [OF assms], of "Suc (length h)" P] chain_length [OF assms]
  by simp

lemma seek_mchain_suffix:
  assumes "mchain h p (pre @ x # post)"
  shows "seek (Suc (length h)) h P (Some x) = Inr (find (\<lambda>x. P (h ! x)) (x # post))"
  using seek_rpath [OF chain_rpath_suffix [OF assms], of "Suc (length h)" P] chain_length [OF assms]
  by simp

lemma org_split_fields:
  assumes c: "c < length h" and r: "\<forall>y. o_r (h ! c) = Some y \<longrightarrow> y < length h \<and> y \<noteq> c"
    and x: "x \<le> length h"
  shows "o_children (fst (org_split h c k) ! x) = (if x = length h then [] else o_children (h ! x))"
    and "oseg (fst (org_split h c k)) x =
           (if x = length h then (o_bgn (h ! c) + k, o_end (h ! c))
            else if x = c then (o_bgn (h ! c), o_bgn (h ! c) + k - 1) else oseg h x)"
  using org_split_nth [OF c r x, of k] by (auto simp: oseg_def)

lemma split_at_wf:
  assumes wf: "wf N s ms os" and k0: "0 \<le> k"
  shows "\<exists>s' ms' os'. split_at s k = Inr s' \<and> wf N s' ms' os' \<and> chrm s' = chrm s"
proof (cases "k = 0 \<or> k \<ge> int (length (chrm s))")
  case True
  then have "split_at s k = Inr s" by (simp add: split_at_def)
  with wf show ?thesis by blast
next
  case False
  then have k: "0 < k" "k < int (length (chrm s))" using k0 by auto
  from wf have ch: "mchain (muts s) (mut s) ms" and och: "ochain (orgs s) (Some (org s)) os"
    and ct: "contig 0 (map (mseg (muts s)) ms) (int (length (chrm s)))"
    and oct: "contig 0 (map (oseg (orgs s)) os) (int N)"
    and pr: "par_ok (muts s) (orgs s) ms os" and kd: "kids_ok (muts s) (orgs s) ms os"
    by (simp_all add: wf_def)
  let ?P = "\<lambda>nd. m_bgn nd \<le> k \<and> k \<le> m_end nd"
  have sk: "seek (Suc (length (muts s))) (muts s) ?P (mut s) = Inr (find (\<lambda>x. ?P (muts s ! x)) ms)"
    using ch by (rule seek_mchain)
  from contig_find [OF ct k0 k(2)] have "\<exists>x\<in>set ms. ?P (muts s ! x)" by (auto simp: mseg_def)
  then obtain sm where fd: "find (\<lambda>x. ?P (muts s ! x)) ms = Some sm"
    by (cases "find (\<lambda>x. ?P (muts s ! x)) ms") (auto simp: find_None_iff)
  then have sm: "sm \<in> set ms" and Psm: "?P (muts s ! sm)"
    by (auto simp: find_Some_iff)
  show ?thesis
  proof (cases "m_bgn (muts s ! sm) = k \<or> m_end (muts s ! sm) = k")
    case True
    then have "split_at s k = Inr s" using False sk fd by (simp add: split_at_def)
    with wf show ?thesis by blast
  next
    case nb: False
    from pr sm obtain o1 where o1: "o1 \<in> set os" and po1: "m_parent (muts s ! sm) = Some o1"
      and len1: "m_end (muts s ! sm) - m_bgn (muts s ! sm) = o_end (orgs s ! o1) - o_bgn (orgs s ! o1)"
      by (auto simp: par_ok_def)
    define k' where "k' = k - m_bgn (muts s ! sm)"
    define D where "D = m_end (muts s ! sm) - m_bgn (muts s ! sm)"
    define oh where "oh = fst (org_split (orgs s) o1 k')"
    define o2 where "o2 = length (orgs s)"
    define cs where "cs = o_children (orgs s ! o1)"
    define os' where "os' = ins_after o1 o2 os"
    have k': "0 < k'" "k' \<le> D" using nb Psm by (auto simp: k'_def D_def)
    from och have od: "distinct os" and ob: "\<forall>x\<in>set os. x < length (orgs s)" by (auto simp: chain_def)
    from ob have o2n: "o2 \<notin> set os" by (auto simp: o2_def)
    from o1 ob have o1l: "o1 < length (orgs s)" by simp
    from chain_nxt_props [OF och o1]
    have r: "\<forall>y. o_r (orgs s ! o1) = Some y \<longrightarrow> y < length (orgs s) \<and> y \<noteq> o1" by blast
    note of = org_split_fields [OF o1l r, of _ k', folded oh_def o2_def]
    have sos: "set os' = insert o2 (set os)" unfolding os'_def using o1 by (rule set_ins_after)
    have cs_oh: "o_children (oh ! o1) = cs" using o1l of(1) [of o1] by (simp add: cs_def o2_def)
    have res: "split_at s k = Inr (s\<lparr> orgs := snd (split_children (muts s) oh o2 k' cs),
                                     muts := fst (split_children (muts s) oh o2 k' cs) \<rparr>)"
      using False sk fd nb po1 cs_oh
      by (simp add: split_at_def Let_def split_beta k'_def oh_def o2_def org_split_snd)
    from kd o1 have dcs: "distinct cs" and scs: "set cs = {m \<in> set ms. m_parent (muts s ! m) = Some o1}"
      by (auto simp: kids_ok_def cs_def)
    have inv0: "split_inv (mut s) (int (length (chrm s))) (org s) (int N) os' o1 o2 k' D (muts s) oh ms cs"
      unfolding split_inv_def
    proof (intro conjI)
      show "mchain (muts s) (mut s) ms" by (rule ch)
      show "contig 0 (map (mseg (muts s)) ms) (int (length (chrm s)))" by (rule ct)
      show "ochain oh (Some (org s)) os'"
        unfolding oh_def os'_def o2_def using och o1 by (rule ochain_org_split)
      show "contig 0 (map (oseg oh) os') (int N)"
        unfolding os'_def
      proof (rule contig_ins_after [OF od o1 o2n oct])
        show "oseg (orgs s) o1 = (o_bgn (orgs s ! o1), o_end (orgs s ! o1))" by (simp add: oseg_def)
        show "oseg oh o1 = (o_bgn (orgs s ! o1), o_bgn (orgs s ! o1) + k' - 1)"
          using o1l of(2) [of o1] by (simp add: o2_def)
        show "oseg oh o2 = (o_bgn (orgs s ! o1) + k' - 1 + 1, o_end (orgs s ! o1))"
          using of(2) [of o2] by (simp add: o2_def)
        show "o_bgn (orgs s ! o1) \<le> o_bgn (orgs s ! o1) + k' - 1" using k' by simp
        show "o_bgn (orgs s ! o1) + k' - 1 + 1 \<le> o_end (orgs s ! o1)" using k' len1 by (simp add: D_def)
        show "\<forall>x\<in>set os. x \<noteq> o1 \<longrightarrow> oseg oh x = oseg (orgs s) x"
          using ob of(2) by (auto simp: o2_def)
      qed
      show "distinct cs" by (rule dcs)
      show "set cs \<subseteq> set ms" using scs by auto
      show "\<forall>c\<in>set cs. m_end (muts s ! c) - m_bgn (muts s ! c) = D \<and> m_parent (muts s ! c) = Some o1"
        using scs pr len1 by (fastforce simp: par_ok_def D_def)
      show "0 < k'" "k' \<le> D" using k' by auto
      show "\<forall>m\<in>set ms - set cs. \<exists>q\<in>set os'. m_parent (muts s ! m) = Some q \<and>
              m_end (muts s ! m) - m_bgn (muts s ! m) = o_end (oh ! q) - o_bgn (oh ! q)"
      proof
        fix m assume m: "m \<in> set ms - set cs"
        with pr obtain q where q: "q \<in> set os" "m_parent (muts s ! m) = Some q"
          "m_end (muts s ! m) - m_bgn (muts s ! m) = o_end (orgs s ! q) - o_bgn (orgs s ! q)"
          by (auto simp: par_ok_def)
        with m scs have "q \<noteq> o1" by auto
        moreover from q ob have "q < length (orgs s)" by simp
        ultimately have "oseg oh q = oseg (orgs s) q" using of(2) [of q] by (simp add: o2_def)
        then have "o_end (oh ! q) - o_bgn (oh ! q) = o_end (orgs s ! q) - o_bgn (orgs s ! q)"
          by (simp add: oseg_def)
        with q sos show "\<exists>q\<in>set os'. m_parent (muts s ! m) = Some q \<and>
              m_end (muts s ! m) - m_bgn (muts s ! m) = o_end (oh ! q) - o_bgn (oh ! q)"
          by auto
      qed
      show "kids_ok (muts s) oh ms os'"
        unfolding kids_ok_def
      proof
        fix q assume "q \<in> set os'"
        then consider "q = o2" | "q \<in> set os" using sos by auto
        then show "distinct (o_children (oh ! q)) \<and>
           set (o_children (oh ! q)) = {m \<in> set ms. m_parent (muts s ! m) = Some q}"
        proof cases
          case 1
          have "{m \<in> set ms. m_parent (muts s ! m) = Some o2} = {}"
            using pr o2n by (fastforce simp: par_ok_def)
          with 1 of(1) [of o2] show ?thesis by (simp add: o2_def)
        next
          case 2
          with ob have "q < length (orgs s)" by simp
          with of(1) [of q] have "o_children (oh ! q) = o_children (orgs s ! q)" by (simp add: o2_def)
          with kd 2 show ?thesis by (simp add: kids_ok_def)
        qed
      qed
      show "o1 \<in> set os'" "o2 \<in> set os'" using sos o1 by auto
      show "o1 \<noteq> o2" using o1 o2n by auto
      show "o_end (oh ! o1) - o_bgn (oh ! o1) = k' - 1"
        using o1l of(2) [of o1] by (simp add: o2_def oseg_def)
      show "o_end (oh ! o2) - o_bgn (oh ! o2) = D - k'"
        using of(2) [of o2] len1 by (simp add: o2_def oseg_def D_def)
    qed
    from split_children_inv [OF inv0] obtain ms' where
      "split_inv (mut s) (int (length (chrm s))) (org s) (int N) os' o1 o2 k' D
         (fst (split_children (muts s) oh o2 k' cs)) (snd (split_children (muts s) oh o2 k' cs)) ms' []"
      by blast
    from split_inv_done [OF this]
    have "wf N (s\<lparr> orgs := snd (split_children (muts s) oh o2 k' cs),
                    muts := fst (split_children (muts s) oh o2 k' cs) \<rparr>) ms' os'"
      by (simp add: wf_def)
    with res show ?thesis by auto
  qed
qed

lemma two_split_wf:
  assumes wf: "wf N s ms os" and b: "0 \<le> b" "b \<le> e"
  shows "\<exists>s' ms' os'. two_split s b e = Inr s' \<and> wf N s' ms' os' \<and> chrm s' = chrm s"
proof -
  obtain s1 ms1 os1 where 1: "(if b > 0 then split_at s b else Inr s) = Inr s1"
    "wf N s1 ms1 os1" "chrm s1 = chrm s"
    using split_at_wf [OF wf b(1)] wf by (cases "b > 0") auto
  have "0 \<le> e + 1" using b by simp
  from split_at_wf [OF 1(2) this] obtain s2 ms2 os2 where
    2: "split_at s1 (e + 1) = Inr s2" "wf N s2 ms2 os2" "chrm s2 = chrm s1" by blast
  show ?thesis
  proof (cases "e + 1 < int (length (chrm s))")
    case True
    with 1 2 have "two_split s b e = Inr s2" by (simp add: two_split_def Let_def)
    with 2 1 show ?thesis by auto
  next
    case False
    with 1 have "two_split s b e = Inr s1" by (simp add: two_split_def Let_def)
    with 1 show ?thesis by auto
  qed
qed

lemma get_inv_pos_diff_eq: "get_inv_pos_diff r0 r1 s0 s1 = r0 + r1 - s1 - s0"
  unfolding get_inv_pos_diff_def Let_def by presburger

lemma find_Some_split:
  "find P xs = Some x \<Longrightarrow> \<exists>pre post. xs = pre @ x # post \<and> P x \<and> (\<forall>y\<in>set pre. \<not> P y)"
proof (induction xs)
  case Nil then show ?case by simp
next
  case (Cons a xs)
  show ?case
  proof (cases "P a")
    case True
    with Cons.prems have "a = x" by simp
    with True show ?thesis by (intro exI [of _ "[]"] exI [of _ xs]) auto
  next
    case False
    with Cons.prems have "find P xs = Some x" by simp
    from Cons.IH [OF this] obtain pre post where "xs = pre @ x # post" "P x" "\<forall>y\<in>set pre. \<not> P y"
      by blast
    with False show ?thesis by (intro exI [of _ "a # pre"] exI [of _ post]) auto
  qed
qed

lemma rseg_cong:
  "\<forall>x\<in>set xs. rt' x = rt x \<Longrightarrow> rseg rt' p xs q = rseg rt p xs q"
  by (induction xs arbitrary: p) auto

lemma rseg_nxt:
  "distinct xs \<Longrightarrow> \<forall>x\<in>set xs. rt x = (if lastopt xs = Some x then q else nxt xs x) \<Longrightarrow>
   rseg rt (if xs = [] then q else headopt xs) xs q"
proof (induction xs)
  case Nil then show ?case by simp
next
  case (Cons y ys)
  have "\<forall>x\<in>set ys. rt x = (if lastopt ys = Some x then q else nxt ys x)"
  proof
    fix x assume x: "x \<in> set ys"
    with Cons.prems have "x \<noteq> y" "ys \<noteq> []" by auto
    with Cons.prems(2) x show "rt x = (if lastopt ys = Some x then q else nxt ys x)"
      by (auto simp: lastopt_Cons)
  qed
  with Cons.IH Cons.prems have ih: "rseg rt (if ys = [] then q else headopt ys) ys q" by simp
  have "rt y = (if ys = [] then q else headopt ys)"
  proof (cases "ys = []")
    case True with Cons.prems show ?thesis by (simp add: lastopt_Cons)
  next
    case False
    with Cons.prems(1) have "lastopt (y # ys) \<noteq> Some y"
      by (cases ys rule: rev_cases) (auto simp: lastopt_Cons lastopt_append)
    with Cons.prems(2) False show ?thesis by simp
  qed
  with ih show ?case by simp
qed

lemma flip_list_length [simp]: "length (flip_list rb re h xs) = length h"
  by (induction xs arbitrary: h) auto

lemma flip_list_nth:
  "distinct xs \<Longrightarrow> x < length h \<Longrightarrow>
   flip_list rb re h xs ! x = (if x \<in> set xs then flip_node rb re (h ! x) else h ! x)"
proof (induction xs arbitrary: h)
  case Nil then show ?case by simp
next
  case (Cons c cs)
  have "x \<in> set cs \<Longrightarrow> x \<noteq> c" using Cons.prems by auto
  with Cons show ?case by (auto simp: nth_list_update)
qed

lemma rev_loop_rseg:
  "rseg (\<lambda>x. m_r (h ! x)) p xs q \<Longrightarrow> distinct xs \<Longrightarrow> \<forall>x\<in>set xs. x < length h \<Longrightarrow>
   q \<notin> Some ` set xs \<Longrightarrow> length xs \<le> f \<Longrightarrow>
   rev_loop f h rb re p q = Inr (flip_list rb re h xs)"
proof (induction xs arbitrary: h p f)
  case Nil
  then show ?case by (cases f) auto
next
  case (Cons c cs)
  then obtain f' where f: "f = Suc f'" by (cases f) auto
  from Cons.prems have p: "p = Some c" and pq: "p \<noteq> q" by auto
  let ?h = "h[c := flip_node rb re (h ! c)]"
  have "rseg (\<lambda>x. m_r (?h ! x)) (m_r (h ! c)) cs q"
  proof -
    have "\<forall>x\<in>set cs. m_r (?h ! x) = m_r (h ! x)"
    proof
      fix x assume "x \<in> set cs"
      with Cons.prems(2) have "c \<noteq> x" by auto
      then show "m_r (?h ! x) = m_r (h ! x)" by simp
    qed
    from rseg_cong [OF this] Cons.prems(1) show ?thesis by simp
  qed
  moreover have "distinct cs" "\<forall>x\<in>set cs. x < length ?h" "q \<notin> Some ` set cs" "length cs \<le> f'"
    using Cons.prems f by auto
  ultimately have "rev_loop f' ?h rb re (m_r (h ! c)) q = Inr (flip_list rb re ?h cs)"
    by (rule Cons.IH)
  then show ?case using p pq f by (simp add: flip_node_def Let_def)
qed

lemma contig_mirror:
  "contig lo ivs hi \<Longrightarrow>
   contig (c - hi + 1) (map (\<lambda>(b, e). (c - e, c - b)) (rev ivs)) (c - lo + 1)"
proof (induction ivs arbitrary: lo)
  case Nil then show ?case by simp
next
  case (Cons iv ivs)
  obtain b e where iv: "iv = (b, e)" by (cases iv)
  with Cons.prems have be: "b = lo" "b \<le> e" and c: "contig (e + 1) ivs hi" by auto
  from Cons.IH [OF c] have "contig (c - hi + 1) (map (\<lambda>(b, e). (c - e, c - b)) (rev ivs)) (c - e)"
    by simp
  moreover have "contig (c - e) [(c - e, c - b)] (c - lo + 1)" using be by simp
  ultimately show ?case using iv by (auto simp: contig_append)
qed

lemma nxt_rev_mid:
  assumes d: "distinct (pre @ mid @ post)" and ne: "mid \<noteq> []"
  shows "nxt (pre @ rev mid @ post) x =
     (if x \<in> set pre then (if lastopt pre = Some x then lastopt mid else nxt (pre @ mid @ post) x)
      else if x \<in> set mid then (if headopt mid = Some x then headopt post else prv (pre @ mid @ post) x)
      else nxt (pre @ mid @ post) x)"
proof -
  from d have dp: "distinct pre" and dm: "distinct mid" and dpo: "distinct post"
    and i1: "set pre \<inter> set mid = {}" and i2: "set pre \<inter> set post = {}" and i3: "set mid \<inter> set post = {}"
    by auto
  consider "x \<in> set pre" | "x \<notin> set pre" "x \<in> set mid" | "x \<notin> set pre" "x \<notin> set mid" by blast
  then show ?thesis
  proof cases
    case 1
    then have "x \<notin> set (rev mid @ post)" "x \<notin> set (mid @ post)" using i1 i2 by auto
    with 1 dp ne show ?thesis
      by (simp add: nxt_append_in headopt_append del: set_append)
  next
    case 2
    then have xp: "x \<notin> set post" using i3 by auto
    have a: "nxt (pre @ rev mid @ post) x = nxt (rev mid @ post) x" using 2 by simp
    have b: "nxt (rev mid @ post) x = (if headopt mid = Some x then headopt post else prv mid x)"
      using nxt_append_in [of x "rev mid" post] 2 xp dm by simp
    have "prv (pre @ mid @ post) x = prv (pre @ mid) x"
      using prv_append_notin [of x post "pre @ mid"] xp by simp
    also have "\<dots> = (if headopt mid = Some x then lastopt pre else prv mid x)"
      using prv_append_in [of x mid pre] 2 dm by simp
    finally have c: "prv (pre @ mid @ post) x = (if headopt mid = Some x then lastopt pre else prv mid x)" .
    show ?thesis using 2 a b c by simp
  next
    case 3
    then show ?thesis by simp
  qed
qed

lemma prv_rev_mid:
  assumes d: "distinct (pre @ mid @ post)" and ne: "mid \<noteq> []"
  shows "prv (pre @ rev mid @ post) x =
     (if x \<in> set post then (if headopt post = Some x then headopt mid else prv (pre @ mid @ post) x)
      else if x \<in> set mid then (if lastopt mid = Some x then lastopt pre else nxt (pre @ mid @ post) x)
      else prv (pre @ mid @ post) x)"
proof -
  have d': "distinct (rev post @ rev mid @ rev pre)" using d by auto
  have "prv (pre @ rev mid @ post) x = nxt (rev post @ rev (rev mid) @ rev pre) x"
    by (simp add: prv_def)
  also have "\<dots> = (if x \<in> set (rev post) then (if lastopt (rev post) = Some x then lastopt (rev mid) else nxt (rev post @ rev mid @ rev pre) x)
      else if x \<in> set (rev mid) then (if headopt (rev mid) = Some x then headopt (rev pre) else prv (rev post @ rev mid @ rev pre) x)
      else nxt (rev post @ rev mid @ rev pre) x)"
    using nxt_rev_mid [OF d', of x] ne by simp
  also have "nxt (rev post @ rev mid @ rev pre) x = prv (pre @ mid @ post) x"
    by (simp add: prv_def)
  also have "prv (rev post @ rev mid @ rev pre) x = nxt (pre @ mid @ post) x"
    by (simp add: prv_def)
  finally show ?thesis by simp
qed

lemma lastopt_in: "lastopt xs = Some x \<Longrightarrow> x \<in> set xs"
  by (cases xs rule: rev_cases) auto

lemma rev_mut_spec:
  assumes wf: "wf N s ms os" and r: "rev_mut s b e = Inr s'"
  shows "\<exists>pre mid post. ms = pre @ mid @ post \<and> mid \<noteq> [] \<and>
     m_bgn (muts s ! hd mid) = b \<and> m_end (muts s ! last mid) = e \<and>
     chrm s' = chrm s \<and> org s' = org s \<and> orgs s' = orgs s \<and>
     mut s' = headopt (pre @ rev mid @ post) \<and>
     length (muts s') = length (muts s) \<and>
     (\<forall>x<length (muts s). x \<notin> set ms \<longrightarrow> muts s' ! x = muts s ! x) \<and>
     (\<forall>x\<in>set ms.
        m_l (muts s' ! x) = prv (pre @ rev mid @ post) x \<and>
        m_r (muts s' ! x) = nxt (pre @ rev mid @ post) x \<and>
        m_parent (muts s' ! x) = m_parent (muts s ! x) \<and>
        m_bgn (muts s' ! x) = (if x \<in> set mid then b + e - m_end (muts s ! x) else m_bgn (muts s ! x)) \<and>
        m_end (muts s' ! x) = (if x \<in> set mid then b + e - m_bgn (muts s ! x) else m_end (muts s ! x)) \<and>
        m_is_inv (muts s' ! x) = (if x \<in> set mid then \<not> m_is_inv (muts s ! x) else m_is_inv (muts s ! x)))"
proof -
  define h where "h = muts s"
  from wf have ch: "mchain h (mut s) ms" by (simp add: wf_def h_def)
  then have d: "distinct ms" and bnd: "\<forall>x\<in>set ms. x < length h"
    and hd: "mut s = headopt ms"
    and ptr: "\<forall>x\<in>set ms. m_r (h ! x) = nxt ms x \<and> m_l (h ! x) = prv ms x"
    by (auto simp: chain_def)
  have sk1: "seek (Suc (length h)) h (\<lambda>nd. m_bgn nd = b) (mut s) = Inr (find (\<lambda>x. m_bgn (h ! x) = b) ms)"
    using ch by (rule seek_mchain)
  from r sk1 obtain ih where f1: "find (\<lambda>x. m_bgn (h ! x) = b) ms = Some ih"
    by (cases "find (\<lambda>x. m_bgn (h ! x) = b) ms") (auto simp: rev_mut_def Let_def h_def)
  from find_Some_split [OF f1] obtain pre rest where ms1: "ms = pre @ ih # rest"
    and bih: "m_bgn (h ! ih) = b" by blast
  have sk2: "seek (Suc (length h)) h (\<lambda>nd. m_end nd = e) (Some ih) = Inr (find (\<lambda>x. m_end (h ! x) = e) (ih # rest))"
    using ch unfolding ms1 by (rule seek_mchain_suffix)
  from r sk1 f1 sk2 obtain it where f2: "find (\<lambda>x. m_end (h ! x) = e) (ih # rest) = Some it"
    by (cases "find (\<lambda>x. m_end (h ! x) = e) (ih # rest)")
       (auto simp: rev_mut_def Let_def h_def simp del: find.simps)
  from find_Some_split [OF f2] obtain mid0 post where ms2: "ih # rest = mid0 @ it # post"
    and eit: "m_end (h ! it) = e" by blast
  define mid where "mid = mid0 @ [it]"
  have ms: "ms = pre @ mid @ post" using ms1 ms2 by (simp add: mid_def)
  have ne: "mid \<noteq> []" by (simp add: mid_def)
  have hm: "hd mid = ih" using ms2 by (cases mid0) (auto simp: mid_def)
  have lm: "last mid = it" by (simp add: mid_def)
  have hom: "headopt mid = Some ih" using hm ne by (cases mid) auto
  have lom: "lastopt mid = Some it" by (simp add: mid_def)
  from d ms have dm: "distinct mid" and dpre: "distinct pre" and dpost: "distinct post"
    and i1: "set pre \<inter> set mid = {}" and i2: "set pre \<inter> set post = {}" and i3: "set mid \<inter> set post = {}"
    by auto
  have ihm: "ih \<in> set mid" using hm ne by (cases mid) auto
  have itm: "it \<in> set mid" by (simp add: mid_def)
  define oh where "oh = m_l (h ! ih)"
  define ot where "ot = m_r (h ! it)"
  have ihn: "ih \<notin> set pre" "ih \<notin> set post" using ihm i1 i3 by blast+
  have itn: "it \<notin> set pre" "it \<notin> set post" using itm i1 i3 by blast+
  have oh: "oh = lastopt pre"
  proof -
    have "oh = prv ms ih" using ptr ihm ms by (simp add: oh_def)
    also have "\<dots> = prv (pre @ mid) ih" unfolding ms using prv_append_notin [OF ihn(2), of "pre @ mid"] by simp
    also have "\<dots> = lastopt pre" using prv_append_in [OF ihm ihn(1) dm] hom by simp
    finally show ?thesis .
  qed
  have ot: "ot = headopt post"
  proof -
    have "ot = nxt ms it" using ptr itm ms by (simp add: ot_def)
    also have "\<dots> = nxt (mid @ post) it" unfolding ms using nxt_append_notin [OF itn(1), of "mid @ post"] by simp
    also have "\<dots> = headopt post" using nxt_append_in [OF itm itn(2) dm] lom by simp
    finally show ?thesis .
  qed
  have rs: "rseg (\<lambda>x. m_r (h ! x)) (Some ih) mid ot"
  proof -
    have "\<forall>x\<in>set mid. m_r (h ! x) = (if lastopt mid = Some x then ot else nxt mid x)"
    proof
      fix x assume x: "x \<in> set mid"
      then have xn: "x \<notin> set pre" "x \<notin> set post" using i1 i3 by blast+
      from x have "m_r (h ! x) = nxt ms x" using ptr ms by simp
      also have "\<dots> = nxt (mid @ post) x" unfolding ms using nxt_append_notin [OF xn(1), of "mid @ post"] by simp
      also have "\<dots> = (if lastopt mid = Some x then headopt post else nxt mid x)"
        using nxt_append_in [OF x xn(2) dm] by simp
      finally show "m_r (h ! x) = (if lastopt mid = Some x then ot else nxt mid x)" using ot by simp
    qed
    from rseg_nxt [OF dm this] ne hom show ?thesis by simp
  qed
  have otn: "ot \<notin> Some ` set mid"
  proof
    assume "ot \<in> Some ` set mid"
    then obtain y where "y \<in> set mid" "headopt post = Some y" using ot by auto
    with i3 headopt_in [of post y] show False by auto
  qed
  have lenm: "length mid \<le> Suc (length h)"
    using chain_length [OF ch] ms by simp
  have bm: "\<forall>x\<in>set mid. x < length h" using bnd ms by simp
  have rl: "rev_loop (Suc (length h)) h b e (Some ih) ot = Inr (flip_list b e h mid)"
    using rs dm bm otn lenm by (rule rev_loop_rseg)
  define h1 where "h1 = flip_list b e h mid"
  define h2 where "h2 = h1[it := (h1 ! it)\<lparr> m_l := oh \<rparr>]"
  define h3 where "h3 = h2[ih := (h2 ! ih)\<lparr> m_r := ot \<rparr>]"
  define h4 where "h4 = (case oh of None \<Rightarrow> h3 | Some x \<Rightarrow> h3[x := (h3 ! x)\<lparr> m_r := Some it \<rparr>])"
  define h5 where "h5 = (case ot of None \<Rightarrow> h4 | Some y \<Rightarrow> h4[y := (h4 ! y)\<lparr> m_l := Some ih \<rparr>])"
  have "rev_mut s b e = Inr (s\<lparr> mut := (if oh = None then Some it else mut s), muts := h5 \<rparr>)"
    unfolding rev_mut_def Let_def h_def [symmetric]
    unfolding sk1 f1 sk2 f2 sum.case option.case bih eit rl [unfolded ot_def]
    by (simp only: oh_def ot_def h1_def h2_def h3_def h4_def h5_def)
  with r have s': "s' = s\<lparr> mut := (if oh = None then Some it else mut s), muts := h5 \<rparr>"
    by simp
  have len: "length h5 = length h"
    by (simp add: h5_def h4_def h3_def h2_def h1_def split: option.splits)
  have ohp: "oh = Some x \<Longrightarrow> x \<in> set pre" for x using oh lastopt_in [of pre x] by simp
  have otp: "ot = Some x \<Longrightarrow> x \<in> set post" for x using ot headopt_in [of post x] by simp
  have itl: "it < length h" "ih < length h" using bm itm ihm by auto
  have h1n: "h1 ! x = (if x \<in> set mid then flip_node b e (h ! x) else h ! x)" if "x < length h" for x
    unfolding h1_def using dm that by (rule flip_list_nth)
  have ohl: "oh = Some y \<Longrightarrow> y < length h" for y using ohp [of y] bnd ms by auto
  have otl: "ot = Some y \<Longrightarrow> y < length h" for y using otp [of y] bnd ms by auto
  have l1: "length h1 = length h" by (simp add: h1_def)
  have l2: "length h2 = length h" by (simp add: h2_def l1)
  have l3: "length h3 = length h" by (simp add: h3_def l2)
  have l4: "length h4 = length h" by (simp add: h4_def l3 split: option.splits)
  have h2n: "h2 ! x = (if x = it then (h1 ! it)\<lparr> m_l := oh \<rparr> else h1 ! x)" for x
    using itl l1 by (simp add: h2_def nth_list_update)
  have h3n: "h3 ! x = (if x = ih then (h2 ! ih)\<lparr> m_r := ot \<rparr> else h2 ! x)" for x
    using itl l2 by (simp add: h3_def nth_list_update)
  have h4n: "h4 ! x = (if oh = Some x then (h3 ! x)\<lparr> m_r := Some it \<rparr> else h3 ! x)" for x
    using ohl l3 by (cases oh) (auto simp: h4_def nth_list_update)
  have h5n: "h5 ! x = (if ot = Some x then (h4 ! x)\<lparr> m_l := Some ih \<rparr> else h4 ! x)" for x
    using otl l4 by (cases ot) (auto simp: h5_def nth_list_update)
  have outside: "h5 ! x = h ! x" if "x < length h" "x \<notin> set ms" for x
  proof -
    from that ms have "x \<notin> set pre" "x \<notin> set mid" "x \<notin> set post" by auto
    with ohp otp itm ihm have "x \<noteq> it" "x \<noteq> ih" "oh \<noteq> Some x" "ot \<noteq> Some x" by auto
    then show ?thesis using that h1n [of x] \<open>x \<notin> set mid\<close>
      by (simp add: h5n h4n h3n h2n)
  qed
  have inpre: "h5 ! x = (h ! x)\<lparr> m_r := (if oh = Some x then Some it else m_r (h ! x)) \<rparr>"
    if "x \<in> set pre" for x
  proof -
    from that i1 i2 have xm: "x \<notin> set mid" "x \<notin> set post" by auto
    with otp itm ihm have ne: "x \<noteq> it" "x \<noteq> ih" "ot \<noteq> Some x" by auto
    have xl: "x < length h" using that bnd ms by simp
    show ?thesis using ne xl h1n [of x] xm
      by (simp add: h5n h4n h3n h2n)
  qed
  have inpost: "h5 ! x = (h ! x)\<lparr> m_l := (if ot = Some x then Some ih else m_l (h ! x)) \<rparr>"
    if "x \<in> set post" for x
  proof -
    from that i3 i2 have xm: "x \<notin> set mid" "x \<notin> set pre" by auto
    with ohp itm ihm have ne: "x \<noteq> it" "x \<noteq> ih" "oh \<noteq> Some x" by auto
    have xl: "x < length h" using that bnd ms by simp
    show ?thesis using ne xl h1n [of x] xm
      by (simp add: h5n h4n h3n h2n)
  qed
  have inmid: "h5 ! x = (flip_node b e (h ! x))
        \<lparr> m_l := (if x = it then oh else m_r (h ! x)), m_r := (if x = ih then ot else m_l (h ! x)) \<rparr>"
    if "x \<in> set mid" for x
  proof -
    from that i3 i1 have xm: "x \<notin> set post" "x \<notin> set pre" by auto
    with ohp otp have ne: "oh \<noteq> Some x" "ot \<noteq> Some x" by auto
    have xl: "x < length h" using that bm by simp
    show ?thesis using ne xl that h1n [of x] h1n [of it] h1n [of ih] itl itm ihm
      by (simp add: h5n h4n h3n h2n flip_node_def)
  qed
  let ?ms' = "pre @ rev mid @ post"
  have dms: "distinct (pre @ mid @ post)" using d ms by simp
  note nr = nxt_rev_mid [OF dms ne] and pr = prv_rev_mid [OF dms ne]
  have fields: "m_l (h5 ! x) = prv ?ms' x \<and> m_r (h5 ! x) = nxt ?ms' x \<and>
        m_parent (h5 ! x) = m_parent (h ! x) \<and>
        m_bgn (h5 ! x) = (if x \<in> set mid then b + e - m_end (h ! x) else m_bgn (h ! x)) \<and>
        m_end (h5 ! x) = (if x \<in> set mid then b + e - m_bgn (h ! x) else m_end (h ! x)) \<and>
        m_is_inv (h5 ! x) = (if x \<in> set mid then \<not> m_is_inv (h ! x) else m_is_inv (h ! x))"
    if x: "x \<in> set ms" for x
  proof -
    from x ptr have px: "m_r (h ! x) = nxt (pre @ mid @ post) x" "m_l (h ! x) = prv (pre @ mid @ post) x"
      by (auto simp: ms)
    consider "x \<in> set pre" | "x \<in> set mid" | "x \<in> set post" using x ms by auto
    then show ?thesis
    proof cases
      case 1
      with i1 i2 have "x \<notin> set mid" "x \<notin> set post" by auto
      with 1 show ?thesis
        using px oh lom by (auto simp: inpre nr pr)
    next
      case 2
      with i1 i3 have "x \<notin> set pre" "x \<notin> set post" by auto
      with 2 show ?thesis
        using px oh ot lom hom by (auto simp: inmid nr pr flip_node_def get_inv_pos_diff_eq)
    next
      case 3
      with i3 i2 have "x \<notin> set mid" "x \<notin> set pre" by auto
      with 3 show ?thesis
        using px oh ot lom hom by (auto simp: inpost nr pr)
    qed
  qed
  have mut': "mut s' = headopt ?ms'"
    using s' oh hd ms ne lom by (cases pre) (auto simp: headopt_append)
  show ?thesis
    apply (rule exI [of _ pre], rule exI [of _ mid], rule exI [of _ post])
    using ms ne hm lm bih eit s' mut' len outside fields
    by (simp add: h_def [symmetric])
qed

lemma contig_hd: "contig lo (map sg xs) hi \<Longrightarrow> xs \<noteq> [] \<Longrightarrow> fst (sg (hd xs)) = lo"
  by (cases xs; cases "sg (hd xs)") auto

lemma contig_last: "contig lo (map sg xs) hi \<Longrightarrow> xs \<noteq> [] \<Longrightarrow> snd (sg (last xs)) + 1 = hi"
proof (induction xs arbitrary: lo)
  case Nil then show ?case by simp
next
  case (Cons x xs)
  obtain b e where sx: "sg x = (b, e)" by (cases "sg x")
  show ?case
  proof (cases "xs = []")
    case True with Cons.prems sx show ?thesis by simp
  next
    case False
    from Cons.prems sx have "contig (e + 1) (map sg xs) hi" by simp
    from Cons.IH [OF this False] False show ?thesis by simp
  qed
qed

lemma rev_mut_wf:
  assumes wf: "wf N s ms os" and r: "rev_mut s b e = Inr s'"
  shows "\<exists>pre mid post. ms = pre @ mid @ post \<and> mid \<noteq> [] \<and>
     m_bgn (muts s ! hd mid) = b \<and> m_end (muts s ! last mid) = e \<and>
     contig 0 (map (mseg (muts s)) pre) b \<and>
     contig b (map (mseg (muts s)) mid) (e + 1) \<and>
     contig (e + 1) (map (mseg (muts s)) post) (int (length (chrm s))) \<and>
     wf N s' (pre @ rev mid @ post) os \<and>
     chrm s' = chrm s \<and> org s' = org s \<and> orgs s' = orgs s \<and>
     mut s' = headopt (pre @ rev mid @ post) \<and>
     length (muts s') = length (muts s) \<and>
     (\<forall>x<length (muts s). x \<notin> set ms \<longrightarrow> muts s' ! x = muts s ! x) \<and>
     (\<forall>x\<in>set ms.
        m_l (muts s' ! x) = prv (pre @ rev mid @ post) x \<and>
        m_r (muts s' ! x) = nxt (pre @ rev mid @ post) x \<and>
        m_parent (muts s' ! x) = m_parent (muts s ! x) \<and>
        m_bgn (muts s' ! x) = (if x \<in> set mid then b + e - m_end (muts s ! x) else m_bgn (muts s ! x)) \<and>
        m_end (muts s' ! x) = (if x \<in> set mid then b + e - m_bgn (muts s ! x) else m_end (muts s ! x)) \<and>
        m_is_inv (muts s' ! x) = (if x \<in> set mid then \<not> m_is_inv (muts s ! x) else m_is_inv (muts s ! x)))"
proof -
  from rev_mut_spec [OF wf r] obtain pre mid post where
    ms: "ms = pre @ mid @ post" and ne: "mid \<noteq> []"
    and bh: "m_bgn (muts s ! hd mid) = b" and el: "m_end (muts s ! last mid) = e"
    and same: "chrm s' = chrm s" "org s' = org s" "orgs s' = orgs s"
    and mut': "mut s' = headopt (pre @ rev mid @ post)"
    and len: "length (muts s') = length (muts s)"
    and out: "\<forall>x<length (muts s). x \<notin> set ms \<longrightarrow> muts s' ! x = muts s ! x"
    and fl: "\<forall>x\<in>set ms.
        m_l (muts s' ! x) = prv (pre @ rev mid @ post) x \<and>
        m_r (muts s' ! x) = nxt (pre @ rev mid @ post) x \<and>
        m_parent (muts s' ! x) = m_parent (muts s ! x) \<and>
        m_bgn (muts s' ! x) = (if x \<in> set mid then b + e - m_end (muts s ! x) else m_bgn (muts s ! x)) \<and>
        m_end (muts s' ! x) = (if x \<in> set mid then b + e - m_bgn (muts s ! x) else m_end (muts s ! x)) \<and>
        m_is_inv (muts s' ! x) = (if x \<in> set mid then \<not> m_is_inv (muts s ! x) else m_is_inv (muts s ! x))"
    by blast
  let ?ms' = "pre @ rev mid @ post"
  from wf have ch: "mchain (muts s) (mut s) ms" and och: "ochain (orgs s) (Some (org s)) os"
    and ct: "contig 0 (map (mseg (muts s)) ms) (int (length (chrm s)))"
    and oct: "contig 0 (map (oseg (orgs s)) os) (int N)"
    and pr: "par_ok (muts s) (orgs s) ms os" and kd: "kids_ok (muts s) (orgs s) ms os"
    by (simp_all add: wf_def)
  from ch have d: "distinct ms" and bnd: "\<forall>x\<in>set ms. x < length (muts s)" by (auto simp: chain_def)
  have sms: "set ?ms' = set ms" using ms by auto
  from d ms have i1: "set pre \<inter> set mid = {}" and i3: "set mid \<inter> set post = {}" by auto
  from ct obtain m1 m2 where c1: "contig 0 (map (mseg (muts s)) pre) m1"
    and c2: "contig m1 (map (mseg (muts s)) mid) m2"
    and c3: "contig m2 (map (mseg (muts s)) post) (int (length (chrm s)))"
    unfolding ms by (auto simp: contig_append)
  have m1: "m1 = b" using contig_hd [OF c2 ne] bh by (simp add: mseg_def)
  have m2: "m2 = e + 1" using contig_last [OF c2 ne] el by (simp add: mseg_def)
  have 1: "mchain (muts s') (mut s') ?ms'"
    unfolding chain_def using d ms mut' fl bnd len by auto
  have 2: "ochain (orgs s') (Some (org s')) os" using och same by simp
  have spre: "map (mseg (muts s')) pre = map (mseg (muts s)) pre"
    using fl i1 ms by (auto simp: mseg_def)
  have spost: "map (mseg (muts s')) post = map (mseg (muts s)) post"
    using fl i3 ms by (auto simp: mseg_def)
  have smid: "map (mseg (muts s')) (rev mid) =
              map (\<lambda>(b', e'). (b + e - e', b + e - b')) (rev (map (mseg (muts s)) mid))"
    using fl ms by (auto simp: mseg_def rev_map)
  have "contig (b + e - (e + 1) + 1) (map (\<lambda>(b', e'). (b + e - e', b + e - b')) (rev (map (mseg (muts s)) mid))) (b + e - b + 1)"
    using c2 unfolding m1 m2 by (rule contig_mirror)
  then have cm: "contig b (map (mseg (muts s')) (rev mid)) (e + 1)" by (simp add: smid)
  have 3: "contig 0 (map (mseg (muts s')) ?ms') (int (length (chrm s')))"
    using c1 c3 cm m1 m2 same by (auto simp: contig_append spre spost)
  have 4: "contig 0 (map (oseg (orgs s')) os) (int N)" using oct same by simp
  have 5: "par_ok (muts s') (orgs s') ?ms' os"
    unfolding par_ok_def
  proof
    fix m assume "m \<in> set ?ms'"
    then have m: "m \<in> set ms" unfolding ms by auto
    with pr obtain q where "q \<in> set os" "m_parent (muts s ! m) = Some q"
      "m_end (muts s ! m) - m_bgn (muts s ! m) = o_end (orgs s ! q) - o_bgn (orgs s ! q)"
      by (auto simp: par_ok_def)
    with fl m same show "\<exists>q\<in>set os. m_parent (muts s' ! m) = Some q \<and>
       m_end (muts s' ! m) - m_bgn (muts s' ! m) = o_end (orgs s' ! q) - o_bgn (orgs s' ! q)"
      by (intro bexI [of _ q]) auto
  qed
  have 6: "kids_ok (muts s') (orgs s') ?ms' os"
    using kd fl same unfolding kids_ok_def sms by auto
  have "wf N s' ?ms' os" using 1 2 3 4 5 6 by (simp add: wf_def)
  with ms ne bh el c1 c2 c3 m1 m2 same mut' len out fl show ?thesis by blast
qed

lemma upd_list_length [simp]: "length (upd_list g h xs) = length h"
  by (induction xs arbitrary: h) auto

lemma upd_list_nth:
  "distinct xs \<Longrightarrow> x < length h \<Longrightarrow>
   upd_list g h xs ! x = (if x \<in> set xs then g (h ! x) else h ! x)"
proof (induction xs arbitrary: h)
  case Nil then show ?case by simp
next
  case (Cons c cs)
  have "x \<in> set cs \<Longrightarrow> x \<noteq> c" using Cons.prems by auto
  with Cons show ?case by (auto simp: nth_list_update)
qed

lemma rpath_cong:
  "\<forall>x\<in>set xs. rt' x = rt x \<Longrightarrow> rpath rt' p xs = rpath rt p xs"
  by (induction xs arbitrary: p) auto

lemma shift_loop_rpath:
  "rpath (\<lambda>x. m_r (h ! x)) p xs \<Longrightarrow> distinct xs \<Longrightarrow> length xs < f \<Longrightarrow>
   shift_loop f h p d = Inr (upd_list (shift_node d) h xs)"
proof (induction xs arbitrary: h p f)
  case Nil
  then show ?case by (cases f) auto
next
  case (Cons c cs)
  then obtain f' where f: "f = Suc f'" by (cases f) auto
  from Cons.prems have p: "p = Some c" by auto
  let ?h = "h[c := shift_node d (h ! c)]"
  have "\<forall>x\<in>set cs. m_r (?h ! x) = m_r (h ! x)"
  proof
    fix x assume "x \<in> set cs"
    with Cons.prems(2) have "c \<noteq> x" by auto
    then show "m_r (?h ! x) = m_r (h ! x)" by simp
  qed
  from rpath_cong [OF this] Cons.prems(1) have "rpath (\<lambda>x. m_r (?h ! x)) (m_r (h ! c)) cs" by simp
  moreover have "distinct cs" "length cs < f'" using Cons.prems f by auto
  ultimately have "shift_loop f' ?h (m_r (h ! c)) d = Inr (upd_list (shift_node d) ?h cs)"
    by (rule Cons.IH)
  moreover have "shift_loop (Suc f') h (Some c) d = shift_loop f' ?h (m_r (h ! c)) d"
    by (simp add: shift_node_def)
  ultimately show ?case using p f by simp
qed

lemma dereg_length [simp]: "length (dereg mh oh cs) = length oh"
  by (induction cs arbitrary: oh) (auto split: option.splits)

lemma dereg_loop_rpath:
  "rpath (\<lambda>x. m_r (mh ! x)) p xs \<Longrightarrow> distinct xs \<Longrightarrow> length xs < f \<Longrightarrow>
   \<forall>x\<in>set xs. \<exists>q. m_parent (mh ! x) = Some q \<and> q < length oh \<and> x \<in> set (o_children (oh ! q)) \<Longrightarrow>
   dereg_loop f mh oh p = Inr (dereg mh oh xs)"
proof (induction xs arbitrary: oh p f)
  case Nil
  then show ?case by (cases f) auto
next
  case (Cons c cs)
  then obtain f' where f: "f = Suc f'" by (cases f) auto
  from Cons.prems have p: "p = Some c" and r: "rpath (\<lambda>x. m_r (mh ! x)) (m_r (mh ! c)) cs" by auto
  from Cons.prems(4) obtain q where q: "m_parent (mh ! c) = Some q" "q < length oh"
    "c \<in> set (o_children (oh ! q))" by auto
  let ?oh = "oh[q := (oh ! q)\<lparr> o_children := remove1 c (o_children (oh ! q)) \<rparr>]"
  have "\<forall>x\<in>set cs. \<exists>q'. m_parent (mh ! x) = Some q' \<and> q' < length ?oh \<and> x \<in> set (o_children (?oh ! q'))"
  proof
    fix x assume x: "x \<in> set cs"
    with Cons.prems(2) have xc: "x \<noteq> c" by auto
    from Cons.prems(4) x obtain q' where q': "m_parent (mh ! x) = Some q'" "q' < length oh"
      "x \<in> set (o_children (oh ! q'))" by auto
    have "x \<in> set (o_children (?oh ! q'))"
      using q' q xc by (cases "q' = q") auto
    with q' show "\<exists>q'. m_parent (mh ! x) = Some q' \<and> q' < length ?oh \<and> x \<in> set (o_children (?oh ! q'))"
      by auto
  qed
  with r Cons.prems f have "dereg_loop f' mh ?oh (m_r (mh ! c)) = Inr (dereg mh ?oh cs)"
    by (intro Cons.IH) auto
  then show ?case using p f q by simp
qed

lemma dereg_fields:
  "o_l (dereg mh oh cs ! x) = o_l (oh ! x) \<and> o_r (dereg mh oh cs ! x) = o_r (oh ! x) \<and>
   o_bgn (dereg mh oh cs ! x) = o_bgn (oh ! x) \<and> o_end (dereg mh oh cs ! x) = o_end (oh ! x)"
proof (induction cs arbitrary: oh)
  case Nil then show ?case by simp
next
  case (Cons c cs)
  show ?case
  proof (cases "m_parent (mh ! c)")
    case None then show ?thesis by simp
  next
    case (Some p)
    then show ?thesis using Cons.IH [of "oh[p := (oh ! p)\<lparr> o_children := remove1 c (o_children (oh ! p)) \<rparr>]"]
      by simp
  qed
qed

lemma dereg_children:
  "\<forall>c\<in>set cs. \<exists>p. m_parent (mh ! c) = Some p \<and> p < length oh \<Longrightarrow> q < length oh \<Longrightarrow>
   distinct (o_children (oh ! q)) \<Longrightarrow>
   distinct (o_children (dereg mh oh cs ! q)) \<and>
   set (o_children (dereg mh oh cs ! q)) =
     set (o_children (oh ! q)) - {c \<in> set cs. m_parent (mh ! c) = Some q}"
proof (induction cs arbitrary: oh)
  case Nil then show ?case by simp
next
  case (Cons c cs)
  from Cons.prems obtain p where p: "m_parent (mh ! c) = Some p" "p < length oh" by auto
  let ?oh = "oh[p := (oh ! p)\<lparr> o_children := remove1 c (o_children (oh ! p)) \<rparr>]"
  have a: "\<forall>c\<in>set cs. \<exists>p. m_parent (mh ! c) = Some p \<and> p < length ?oh" using Cons.prems by auto
  have b: "q < length ?oh" using Cons.prems by simp
  have c: "distinct (o_children (?oh ! q))" using Cons.prems p by (cases "p = q") auto
  from Cons.IH [OF a b c] p Cons.prems show ?case
    by (cases "p = q") (auto simp: set_remove1_eq)
qed

lemma head_decomp:
  assumes ch: "mchain h p ms"
    and sk: "seek (Suc (length h)) h (\<lambda>nd. m_bgn nd = b) p = Inr (Some ih)"
  shows "\<exists>pre rest. ms = pre @ ih # rest \<and> m_bgn (h ! ih) = b \<and> (\<forall>x\<in>set pre. m_bgn (h ! x) \<noteq> b)"
proof -
  from sk seek_mchain [OF ch, of "\<lambda>nd. m_bgn nd = b"]
  have "find (\<lambda>x. m_bgn (h ! x) = b) ms = Some ih" by simp
  from find_Some_split [OF this] show ?thesis by blast
qed

lemma tail_decomp:
  assumes ch: "mchain h p (pre @ ih # rest)"
    and fd: "find (\<lambda>x. m_end (h ! x) = e) (ih # rest) = Some it"
  shows "\<exists>mid post. ih # rest = mid @ post \<and> mid \<noteq> [] \<and> hd mid = ih \<and> last mid = it \<and>
           m_end (h ! it) = e \<and> (\<forall>x\<in>set (butlast mid). m_end (h ! x) \<noteq> e) \<and>
           m_l (h ! ih) = lastopt pre \<and> m_r (h ! it) = headopt post \<and>
           (\<forall>x\<in>set mid. m_r (h ! x) = (if x = it then headopt post else nxt mid x)) \<and>
           (\<forall>x\<in>set mid. m_l (h ! x) = (if x = ih then lastopt pre else prv mid x))"
proof -
  from find_Some_split [OF fd] obtain mid0 post where ms2: "ih # rest = mid0 @ it # post"
    and eit: "m_end (h ! it) = e" and nb: "\<forall>x\<in>set mid0. m_end (h ! x) \<noteq> e" by blast
  define mid where "mid = mid0 @ [it]"
  define ms where "ms = pre @ ih # rest"
  have ms: "ms = pre @ mid @ post" using ms2 by (simp add: mid_def ms_def)
  have ne: "mid \<noteq> []" by (simp add: mid_def)
  have hm: "hd mid = ih" using ms2 by (cases mid0) (auto simp: mid_def)
  have lm: "last mid = it" by (simp add: mid_def)
  have hom: "headopt mid = Some ih" using hm ne by (cases mid) auto
  have lom: "lastopt mid = Some it" by (simp add: mid_def)
  from ch have d: "distinct ms" 
    and ptr: "\<forall>x\<in>set ms. m_r (h ! x) = nxt ms x \<and> m_l (h ! x) = prv ms x"
    by (auto simp: chain_def ms_def)
  from d ms have dm: "distinct mid"
    and i1: "set pre \<inter> set mid = {}" and i3: "set mid \<inter> set post = {}"
    by auto
  have r: "m_r (h ! x) = (if x = it then headopt post else nxt mid x)" if x: "x \<in> set mid" for x
  proof -
    from x have xn: "x \<notin> set pre" "x \<notin> set post" using i1 i3 by blast+
    from x have "m_r (h ! x) = nxt ms x" using ptr ms by simp
    also have "\<dots> = nxt (mid @ post) x" unfolding ms using nxt_append_notin [OF xn(1), of "mid @ post"] by simp
    also have "\<dots> = (if lastopt mid = Some x then headopt post else nxt mid x)"
      using nxt_append_in [OF x xn(2) dm] by simp
    finally show ?thesis using lom by auto
  qed
  have l: "m_l (h ! x) = (if x = ih then lastopt pre else prv mid x)" if x: "x \<in> set mid" for x
  proof -
    from x have xn: "x \<notin> set pre" "x \<notin> set post" using i1 i3 by blast+
    from x have "m_l (h ! x) = prv ms x" using ptr ms by simp
    also have "\<dots> = prv (pre @ mid) x" unfolding ms using prv_append_notin [OF xn(2), of "pre @ mid"] by simp
    also have "\<dots> = (if headopt mid = Some x then lastopt pre else prv mid x)"
      using prv_append_in [OF x xn(1) dm] by simp
    finally show ?thesis using hom by auto
  qed
  have ihm: "ih \<in> set mid" using hm ne by (cases mid) auto
  have itm: "it \<in> set mid" by (simp add: mid_def)
  have "ih # rest = mid @ post" using ms2 by (simp add: mid_def)
  moreover have "\<forall>x\<in>set (butlast mid). m_end (h ! x) \<noteq> e" using nb by (simp add: mid_def)
  moreover have "m_l (h ! ih) = lastopt pre" using l [OF ihm] by simp
  moreover have "m_r (h ! it) = headopt post" using r [OF itm] by simp
  ultimately show ?thesis using ne hm lm eit r l by blast
qed

lemma tri_split_in_bounds:
  assumes "0 \<le> b" "b \<le> e" "e < int (length c)"
  shows "tri_split_str c b e = (take (nat b) c, drop (nat b) (take (nat (e + 1)) c), drop (nat (e + 1)) c)"
  using assms by (auto simp: tri_split_str_def slice_idx_def min_def)

lemma contig_shift:
  "contig lo ivs hi \<Longrightarrow> contig (lo + d) (map (\<lambda>(b, e). (b + d, e + d)) ivs) (hi + d)"
proof (induction ivs arbitrary: lo)
  case Nil then show ?case by simp
next
  case (Cons iv ivs)
  obtain b e where iv: "iv = (b, e)" by (cases iv)
  with Cons.prems have "b = lo" "b \<le> e" "contig (e + 1) ivs hi" by auto
  with Cons.IH [of "e + 1"] iv show ?case by (simp add: add.commute add.left_commute)
qed

lemma rem_spec:
  assumes wf: "wf N s1 ms os"
    and ib: "is_in_bounds s b e" and sp: "is_splitable s b e = Inr True"
    and ts: "two_split s b e = Inr s1" and c1: "chrm s1 = chrm s"
    and res: "rem s b e = Inr (s', ok)"
  shows "ok \<and> (\<exists>pre mid post. ms = pre @ mid @ post \<and> mid \<noteq> [] \<and>
     m_bgn (muts s1 ! hd mid) = b \<and> m_end (muts s1 ! last mid) = e \<and>
     wf N s' (pre @ post) os \<and>
     chrm s' = take (nat b) (chrm s) @ drop (nat (e + 1)) (chrm s) \<and>
     org s' = org s1 \<and> length (orgs s') = length (orgs s1) \<and>
     (\<forall>q<length (orgs s1). oseg (orgs s') q = oseg (orgs s1) q \<and>
        o_l (orgs s' ! q) = o_l (orgs s1 ! q) \<and> o_r (orgs s' ! q) = o_r (orgs s1 ! q)) \<and>
     (\<forall>q\<in>set os. distinct (o_children (orgs s' ! q)) \<and>
        set (o_children (orgs s' ! q)) =
          set (o_children (orgs s1 ! q)) - {c \<in> set mid. m_parent (muts s1 ! c) = Some q}) \<and>
     length (muts s') = length (muts s1) \<and>
     (\<forall>x<length (muts s1). m_is_inv (muts s' ! x) = m_is_inv (muts s1 ! x) \<and>
        m_parent (muts s' ! x) = m_parent (muts s1 ! x)) \<and>
     (\<forall>x\<in>set pre. mseg (muts s') x = mseg (muts s1) x) \<and>
     (\<forall>x\<in>set post. mseg (muts s') x =
        (m_bgn (muts s1 ! x) - (e - b + 1), m_end (muts s1 ! x) - (e - b + 1))))"
proof -
  define h where "h = muts s1"
  define M where "M = int (length (chrm s))"
  from ib have be: "0 \<le> b" "b \<le> e" "e < M" by (auto simp: is_in_bounds_def M_def)
  from wf have ch: "mchain h (mut s1) ms" and och: "ochain (orgs s1) (Some (org s1)) os"
    and ct: "contig 0 (map (mseg h) ms) M"
    and oct: "contig 0 (map (oseg (orgs s1)) os) (int N)"
    and pr: "par_ok h (orgs s1) ms os" and kd: "kids_ok h (orgs s1) ms os"
    by (simp_all add: wf_def h_def M_def c1)
  from ch have d: "distinct ms" and bnd: "\<forall>x\<in>set ms. x < length h"
    and hd: "mut s1 = headopt ms"
    and ptr: "\<forall>x\<in>set ms. m_r (h ! x) = nxt ms x \<and> m_l (h ! x) = prv ms x"
    by (auto simp: chain_def)
  from och have obnd: "\<forall>q\<in>set os. q < length (orgs s1)" by (auto simp: chain_def)
  note sk1 = seek_mchain [OF ch, of "\<lambda>nd. m_bgn nd = b"]
  from res ib sp ts have ght: "\<exists>head tail. get_head_tail h (mut s1) b e = Inr (Some head, Some tail)"
    by (auto simp: rem_def h_def split: sum.splits option.splits prod.splits)
  then obtain head tail where ght: "get_head_tail h (mut s1) b e = Inr (Some head, Some tail)" by blast
  then have s1h: "seek (Suc (length h)) h (\<lambda>nd. m_bgn nd = b) (mut s1) = Inr (Some head)"
    and s2h: "seek (Suc (length h)) h (\<lambda>nd. m_end nd = e) (Some head) = Inr (Some tail)"
    by (auto simp: get_head_tail_def split: sum.splits)
  from head_decomp [OF ch s1h] obtain pre rest where ms1: "ms = pre @ head # rest"
    and bih: "m_bgn (h ! head) = b" by blast
  from s2h seek_mchain_suffix [OF ch [unfolded ms1], of "\<lambda>nd. m_end nd = e"]
  have fd: "find (\<lambda>x. m_end (h ! x) = e) (head # rest) = Some tail" by simp
  from tail_decomp [OF ch [unfolded ms1] fd] obtain mid post where
    ms2: "head # rest = mid @ post" and ne: "mid \<noteq> []" and hm: "hd mid = head" and lm: "last mid = tail"
    and eit: "m_end (h ! tail) = e"
    and nL: "m_l (h ! head) = lastopt pre" and nR: "m_r (h ! tail) = headopt post"
    and mr: "\<forall>x\<in>set mid. m_r (h ! x) = (if x = tail then headopt post else nxt mid x)"
    by blast
  have ms: "ms = pre @ mid @ post" using ms1 ms2 by simp
  from d ms have dm: "distinct mid" and dpre: "distinct pre" and dpost: "distinct post"
    and i1: "set pre \<inter> set mid = {}" and i2: "set pre \<inter> set post = {}" and i3: "set mid \<inter> set post = {}"
    by auto
  have ihm: "head \<in> set mid" using hm ne by (cases mid) auto
  have itm: "tail \<in> set mid" using lm ne by (cases mid rule: rev_cases) auto
  have lom: "lastopt mid = Some tail" using lm ne by (cases mid rule: rev_cases) auto
  define newL where "newL = m_l (h ! head)"
  define newR where "newR = m_r (h ! tail)"
  have newL: "newL = lastopt pre" using nL by (simp add: newL_def)
  have newR: "newR = headopt post" using nR by (simp add: newR_def)
  define h1 where "h1 = (case newL of None \<Rightarrow> h | Some x \<Rightarrow> h[x := (h ! x)\<lparr> m_r := newR \<rparr>])"
  define h2 where "h2 = (case newR of None \<Rightarrow> h1 | Some y \<Rightarrow> h1[y := (h1 ! y)\<lparr> m_l := newL \<rparr>])"
  define h3 where "h3 = h2[head := (h2 ! head)\<lparr> m_l := None \<rparr>]"
  define h4 where "h4 = h3[tail := (h3 ! tail)\<lparr> m_r := None \<rparr>]"
  define dd where "dd = - (e - b + 1)"
  define h5 where "h5 = upd_list (shift_node dd) h4 post"
  define oh' where "oh' = dereg h4 (orgs s1) mid"
  have Lp: "newL = Some x \<Longrightarrow> x \<in> set pre" for x using newL lastopt_in [of pre x] by simp
  have Rp: "newR = Some x \<Longrightarrow> x \<in> set post" for x using newR headopt_in [of post x] by simp
  have Ll: "newL = Some y \<Longrightarrow> y < length h" for y using Lp [of y] bnd ms by auto
  have Rl: "newR = Some y \<Longrightarrow> y < length h" for y using Rp [of y] bnd ms by auto
  have itl: "tail < length h" "head < length h" using bnd ms itm ihm by auto
  have l1: "length h1 = length h" by (simp add: h1_def split: option.splits)
  have l2: "length h2 = length h" by (simp add: h2_def l1 split: option.splits)
  have l3: "length h3 = length h" by (simp add: h3_def l2)
  have l4: "length h4 = length h" by (simp add: h4_def l3)
  have l5: "length h5 = length h" by (simp add: h5_def l4)
  have h1n: "h1 ! x = (if newL = Some x then (h ! x)\<lparr> m_r := newR \<rparr> else h ! x)" for x
    using Ll by (cases newL) (auto simp: h1_def nth_list_update)
  have h2n: "h2 ! x = (if newR = Some x then (h1 ! x)\<lparr> m_l := newL \<rparr> else h1 ! x)" for x
    using Rl l1 by (cases newR) (auto simp: h2_def nth_list_update)
  have h3n: "h3 ! x = (if x = head then (h2 ! head)\<lparr> m_l := None \<rparr> else h2 ! x)" for x
    using itl l2 by (simp add: h3_def nth_list_update)
  have h4n: "h4 ! x = (if x = tail then (h3 ! tail)\<lparr> m_r := None \<rparr> else h3 ! x)" for x
    using itl l3 by (simp add: h4_def nth_list_update)
  have h5n: "h5 ! x = (if x \<in> set post then shift_node dd (h4 ! x) else h4 ! x)" if "x < length h" for x
    unfolding h5_def using dpost that l4 by (simp add: upd_list_nth)
  have inmid4: "m_r (h4 ! x) = nxt mid x \<and> m_parent (h4 ! x) = m_parent (h ! x)" if x: "x \<in> set mid" for x
  proof -
    from x i1 i3 have "x \<notin> set pre" "x \<notin> set post" by auto
    with Lp Rp have "newL \<noteq> Some x" "newR \<noteq> Some x" by auto
    moreover have "nxt mid tail = None"
      using nxt_append_in [OF itm _ dm, of "[]"] lom by simp
    ultimately show ?thesis using mr x by (auto simp: h4n h3n h2n h1n)
  qed
  have inpost4: "h4 ! x = (h ! x)\<lparr> m_l := (if newR = Some x then newL else m_l (h ! x)) \<rparr>" if x: "x \<in> set post" for x
  proof -
    from x i2 i3 have xn: "x \<notin> set pre" "x \<notin> set mid" by auto
    with Lp itm ihm have "newL \<noteq> Some x" "x \<noteq> head" "x \<noteq> tail" by auto
    then show ?thesis by (simp add: h4n h3n h2n h1n)
  qed
  have inpre4: "h4 ! x = (h ! x)\<lparr> m_r := (if newL = Some x then newR else m_r (h ! x)) \<rparr>" if x: "x \<in> set pre" for x
  proof -
    from x i2 i1 have xn: "x \<notin> set post" "x \<notin> set mid" by auto
    with Rp itm ihm have "newR \<noteq> Some x" "x \<noteq> head" "x \<noteq> tail" by auto
    then show ?thesis by (simp add: h4n h3n h2n h1n)
  qed
  have data4: "m_parent (h4 ! x) = m_parent (h ! x) \<and> m_is_inv (h4 ! x) = m_is_inv (h ! x) \<and>
               mseg h4 x = mseg h x" for x
    by (simp add: h4n h3n h2n h1n mseg_def)
  text \<open>the loops\<close>
  have lenms: "length ms \<le> length h" using chain_length [OF ch] .
  have rp_mid: "rpath (\<lambda>x. m_r (h4 ! x)) (Some head) mid"
    using rpath_nxt [OF dm, of "\<lambda>x. m_r (h4 ! x)"] inmid4 hm ne by (cases mid) auto
  have dl: "dereg_loop (Suc (length h)) h4 (orgs s1) (Some head) = Inr oh'"
    unfolding oh'_def
  proof (rule dereg_loop_rpath [OF rp_mid dm])
    show "length mid < Suc (length h)" using lenms ms by simp
    show "\<forall>x\<in>set mid. \<exists>q. m_parent (h4 ! x) = Some q \<and> q < length (orgs s1) \<and> x \<in> set (o_children (orgs s1 ! q))"
    proof
      fix x assume x: "x \<in> set mid"
      then have xm: "x \<in> set ms" using ms by simp
      with pr obtain q where q: "q \<in> set os" "m_parent (h ! x) = Some q" by (auto simp: par_ok_def)
      with kd xm have "x \<in> set (o_children (orgs s1 ! q))" by (auto simp: kids_ok_def)
      with q obnd inmid4 [OF x] show "\<exists>q. m_parent (h4 ! x) = Some q \<and> q < length (orgs s1) \<and> x \<in> set (o_children (orgs s1 ! q))"
        by auto
    qed
  qed
  have rp_post: "rpath (\<lambda>x. m_r (h4 ! x)) newR post"
  proof -
    have "\<forall>x\<in>set post. m_r (h4 ! x) = nxt post x"
    proof
      fix x assume x: "x \<in> set post"
      then have xn: "x \<notin> set pre" "x \<notin> set mid" using i2 i3 by auto
      then have "x \<notin> set (pre @ mid)" by simp
      from nxt_append_notin [OF this, of post] have "nxt ms x = nxt post x" by (simp add: ms)
      with ptr x ms inpost4 [OF x] show "m_r (h4 ! x) = nxt post x" by simp
    qed
    from rpath_nxt [OF dpost this] newR show ?thesis by simp
  qed
  have sl: "shift_loop (Suc (length h)) h4 newR dd = Inr h5"
    unfolding h5_def using rp_post dpost
  proof (rule shift_loop_rpath)
    show "length post < Suc (length h)" using lenms ms by simp
  qed
  have tri: "tri_split_str (chrm s1) b e =
       (take (nat b) (chrm s), drop (nat b) (take (nat (e + 1)) (chrm s)), drop (nat (e + 1)) (chrm s))"
    using be by (simp add: c1 tri_split_in_bounds M_def)
  have "rem s b e =
      (case dereg_loop (Suc (length h)) h4 (orgs s1) (Some head) of
         Inl err \<Rightarrow> Inl err
       | Inr oh \<Rightarrow>
           (case shift_loop (Suc (length h)) h4 newR dd of
              Inl err \<Rightarrow> Inl err
            | Inr h5' \<Rightarrow>
                (let (c1, c2, c3) = tri_split_str (chrm s1) b e
                 in Inr (s1\<lparr> chrm := c1 @ c3,
                         mut := (if newL = None then newR else mut s1),
                         orgs := oh, muts := h5' \<rparr>, True))))"
    unfolding h4_def h3_def h2_def h1_def newL_def newR_def dd_def h_def
    using ib sp ts ght [unfolded h_def]
    by (simp add: rem_def Let_def del: dereg_loop.simps shift_loop.simps)
  then have "rem s b e = Inr (s1\<lparr> chrm := take (nat b) (chrm s) @ drop (nat (e + 1)) (chrm s),
                               mut := (if newL = None then newR else mut s1),
                               orgs := oh', muts := h5 \<rparr>, True)"
    unfolding dl sl sum.case by (simp add: tri)
  with res have s': "s' = s1\<lparr> chrm := take (nat b) (chrm s) @ drop (nat (e + 1)) (chrm s),
                               mut := (if newL = None then newR else mut s1),
                               orgs := oh', muts := h5 \<rparr>" and ok: "ok" by simp_all
  text \<open>the new state\<close>
  let ?ms' = "pre @ post"
  have nodes: "m_l (h5 ! x) = prv ?ms' x \<and> m_r (h5 ! x) = nxt ?ms' x \<and> x < length h5" if x: "x \<in> set ?ms'" for x
  proof -
    from x ms bnd have xl: "x < length h" by auto
    from x ptr ms have px: "m_r (h ! x) = nxt (pre @ mid @ post) x" "m_l (h ! x) = prv (pre @ mid @ post) x" by auto
    consider "x \<in> set pre" | "x \<in> set post" using x by auto
    then show ?thesis
    proof cases
      case 1
      then have xn: "x \<notin> set post" "x \<notin> set mid" "x \<notin> set (mid @ post)" using i1 i2 by auto
      have a: "nxt (pre @ mid @ post) x = (if lastopt pre = Some x then headopt (mid @ post) else nxt pre x)"
        using nxt_append_in [OF 1 xn(3) dpre] by simp
      have b': "nxt (pre @ post) x = (if lastopt pre = Some x then headopt post else nxt pre x)"
        using nxt_append_in [OF 1 xn(1) dpre] by simp
      have c: "prv (pre @ mid @ post) x = prv pre x"
        using prv_append_notin [OF xn(3), of pre] by simp
      have d': "prv (pre @ post) x = prv pre x" using xn by simp
      show ?thesis using xl xn 1 px a b' c d' newL newR
        by (simp add: h5n inpre4 l5)
    next
      case 2
      then have xn: "x \<notin> set pre" "x \<notin> set mid" "x \<notin> set (pre @ mid)" using i3 i2 by auto
      have a: "prv ((pre @ mid) @ post) x = (if headopt post = Some x then lastopt (pre @ mid) else prv post x)"
        using prv_append_in [OF 2 xn(3) dpost] by simp
      have b': "prv (pre @ post) x = (if headopt post = Some x then lastopt pre else prv post x)"
        using prv_append_in [OF 2 xn(1) dpost] by simp
      have c: "nxt ((pre @ mid) @ post) x = nxt post x"
        using nxt_append_notin [OF xn(3), of post] by simp
      have d': "nxt (pre @ post) x = nxt post x" using xn by simp
      show ?thesis using xl xn 2 px a b' c d' newL newR
        by (simp add: h5n inpost4 l5 shift_node_def)
    qed
  qed
  have data5: "m_parent (h5 ! x) = m_parent (h ! x) \<and> m_is_inv (h5 ! x) = m_is_inv (h ! x) \<and>
      mseg h5 x = (if x \<in> set post then (m_bgn (h ! x) + dd, m_end (h ! x) + dd) else mseg h x)"
    if "x < length h" for x
    using that data4 [of x] by (simp add: h5n shift_node_def mseg_def)
  have mut': "mut s' = headopt ?ms'"
    using s' newL newR hd ms ne by (cases pre) (auto simp: headopt_append)
  have 1: "mchain (muts s') (mut s') ?ms'"
    unfolding chain_def using d ms mut' nodes s' by auto
  have of: "o_l (oh' ! q) = o_l (orgs s1 ! q) \<and> o_r (oh' ! q) = o_r (orgs s1 ! q) \<and>
            o_bgn (oh' ! q) = o_bgn (orgs s1 ! q) \<and> o_end (oh' ! q) = o_end (orgs s1 ! q)" for q
    unfolding oh'_def by (rule dereg_fields)
  have lo: "length oh' = length (orgs s1)" by (simp add: oh'_def)
  have 2: "ochain (orgs s') (Some (org s')) os"
    using och of lo s' by (auto simp: chain_def)
  from ct obtain m1 m2 where cc1: "contig 0 (map (mseg h) pre) m1"
    and cc2: "contig m1 (map (mseg h) mid) m2"
    and cc3: "contig m2 (map (mseg h) post) M"
    unfolding ms by (auto simp: contig_append)
  have m1: "m1 = b" using contig_hd [OF cc2 ne] bih hm by (simp add: mseg_def)
  have m2: "m2 = e + 1" using contig_last [OF cc2 ne] eit lm by (simp add: mseg_def)
  have spre: "map (mseg h5) pre = map (mseg h) pre"
    using data5 bnd ms i2 by auto
  have spost: "map (mseg h5) post = map (\<lambda>(b', e'). (b' + dd, e' + dd)) (map (mseg h) post)"
    using data5 bnd ms by (auto simp: mseg_def)
  have "contig (e + 1 + dd) (map (\<lambda>(b', e'). (b' + dd, e' + dd)) (map (mseg h) post)) (M + dd)"
    using cc3 unfolding m2 by (rule contig_shift)
  then have cp: "contig b (map (mseg h5) post) (M + dd)" by (simp add: spost dd_def)
  have lc: "int (length (chrm s')) = M + dd"
    using be s' by (auto simp: M_def dd_def)
  have 3: "contig 0 (map (mseg (muts s')) ?ms') (int (length (chrm s')))"
    unfolding lc using cc1 cp m1 s' by (auto simp: contig_append spre)
  have os_eq: "oseg oh' = oseg (orgs s1)" using of by (auto simp: oseg_def)
  have 4: "contig 0 (map (oseg (orgs s')) os) (int N)" using oct s' os_eq by simp
  have 5: "par_ok (muts s') (orgs s') ?ms' os"
    unfolding par_ok_def
  proof
    fix m assume m': "m \<in> set ?ms'"
    then have m: "m \<in> set ms" unfolding ms by auto
    with pr obtain q where "q \<in> set os" "m_parent (h ! m) = Some q"
      "m_end (h ! m) - m_bgn (h ! m) = o_end (orgs s1 ! q) - o_bgn (orgs s1 ! q)"
      by (auto simp: par_ok_def)
    moreover from m bnd have "m < length h" by simp
    ultimately show "\<exists>q\<in>set os. m_parent (muts s' ! m) = Some q \<and>
       m_end (muts s' ! m) - m_bgn (muts s' ! m) = o_end (orgs s' ! q) - o_bgn (orgs s' ! q)"
      using data5 [of m] of [of q] s' by (intro bexI [of _ q]) (auto simp: mseg_def split: if_splits)
  qed
  have par_mid: "\<forall>c\<in>set mid. \<exists>p. m_parent (h4 ! c) = Some p \<and> p < length (orgs s1)"
  proof
    fix c assume c: "c \<in> set mid"
    then have "c \<in> set ms" using ms by simp
    with pr obtain q where "q \<in> set os" "m_parent (h ! c) = Some q" by (auto simp: par_ok_def)
    with obnd data4 [of c] show "\<exists>p. m_parent (h4 ! c) = Some p \<and> p < length (orgs s1)" by auto
  qed
  have kids: "distinct (o_children (oh' ! q)) \<and>
        set (o_children (oh' ! q)) = set (o_children (orgs s1 ! q)) - {c \<in> set mid. m_parent (h ! c) = Some q}"
    if q: "q \<in> set os" for q
  proof -
    from q obnd have ql: "q < length (orgs s1)" by simp
    from kd q have dq: "distinct (o_children (orgs s1 ! q))" by (simp add: kids_ok_def)
    from dereg_children [OF par_mid ql dq] data4 show ?thesis by (simp add: oh'_def)
  qed
  have 6: "kids_ok (muts s') (orgs s') ?ms' os"
    unfolding kids_ok_def
  proof
    fix q assume q: "q \<in> set os"
    from kd q have sq: "set (o_children (orgs s1 ! q)) = {m \<in> set ms. m_parent (h ! m) = Some q}"
      by (simp add: kids_ok_def)
    have "set (o_children (orgs s1 ! q)) - {c \<in> set mid. m_parent (h ! c) = Some q} =
          {m \<in> set ?ms'. m_parent (h5 ! m) = Some q}"
      unfolding sq using data5 bnd ms i1 i3 by auto
    with kids [OF q] s' show "distinct (o_children (orgs s' ! q)) \<and>
        set (o_children (orgs s' ! q)) = {m \<in> set ?ms'. m_parent (muts s' ! m) = Some q}"
      by simp
  qed
  have wf': "wf N s' ?ms' os" using 1 2 3 4 5 6 by (simp add: wf_def)
    have z1: "ok" by (rule ok)
    have z2: "ms = pre @ mid @ post" by (rule ms)
    have z3: "mid \<noteq> []" by (rule ne)
    have z4: "m_bgn (muts s1 ! hd mid) = b" using bih hm by (simp add: h_def)
    have z5: "m_end (muts s1 ! last mid) = e" using eit lm by (simp add: h_def)
    have z6: "wf N s' (pre @ post) os" by (rule wf')
    have z7: "chrm s' = take (nat b) (chrm s) @ drop (nat (e + 1)) (chrm s)" using s' by simp
    have z8: "org s' = org s1" using s' by simp
    have z9: "length (orgs s') = length (orgs s1)" using s' lo by simp
    have z10: "\<forall>q<length (orgs s1). oseg (orgs s') q = oseg (orgs s1) q \<and>
        o_l (orgs s' ! q) = o_l (orgs s1 ! q) \<and> o_r (orgs s' ! q) = o_r (orgs s1 ! q)"
      using s' of os_eq by simp
    have z11: "\<forall>q\<in>set os. distinct (o_children (orgs s' ! q)) \<and>
        set (o_children (orgs s' ! q)) =
          set (o_children (orgs s1 ! q)) - {c \<in> set mid. m_parent (muts s1 ! c) = Some q}"
      using kids s' by (simp add: h_def)
    have z12: "length (muts s') = length (muts s1)" using s' l5 by (simp add: h_def)
    have z13: "\<forall>x<length (muts s1). m_is_inv (muts s' ! x) = m_is_inv (muts s1 ! x) \<and>
        m_parent (muts s' ! x) = m_parent (muts s1 ! x)"
      using s' data5 by (simp add: h_def)
    have z14: "\<forall>x\<in>set pre. mseg (muts s') x = mseg (muts s1) x"
      using s' data5 bnd ms i2 by (auto simp: h_def)
    have z15: "\<forall>x\<in>set post. mseg (muts s') x =
        (m_bgn (muts s1 ! x) - (e - b + 1), m_end (muts s1 ! x) - (e - b + 1))"
      using s' data5 bnd ms by (auto simp: h_def dd_def)
  show ?thesis
    using z1 z2 z3 z4 z5 z6 z7 z8 z9 z10 z11 z12 z13 z14 z15
    by blast
qed

lemma mk_copies_cong:
  "\<forall>x\<in>set xs. h' ! x = h ! x \<Longrightarrow> mk_copies h' xs prev n = mk_copies h xs prev n"
  by (induction xs arbitrary: prev n) auto

lemma reg_cong:
  "\<forall>x\<in>set xs. m_parent (h' ! x) = m_parent (h ! x) \<Longrightarrow> reg h' oh xs n = reg h oh xs n"
  by (induction xs arbitrary: oh n) (auto split: option.splits)

lemma mk_copies_length [simp]: "length (mk_copies h xs prev n) = length xs"
  by (induction xs arbitrary: prev n) auto

lemma copy_loop_spec:
  assumes "xs \<noteq> []"
    and "rseg (\<lambda>x. m_r (mh ! x)) (Some (hd xs)) xs q"
    and "distinct xs" and "\<forall>x\<in>set xs. x < length mh \<and> m_parent (mh ! x) \<noteq> None"
    and "m_end (mh ! last xs) = to" and "\<forall>x\<in>set (butlast xs). m_end (mh ! x) \<noteq> to"
    and "\<forall>pb. prevB = Some pb \<longrightarrow> pb < length mh \<and> pb \<notin> set xs"
    and "length xs \<le> f"
  shows "copy_loop f mh oh (Some (hd xs)) headB prevB to =
     Inr ((case prevB of None \<Rightarrow> mh | Some pb \<Rightarrow> mh[pb := (mh ! pb)\<lparr> m_r := Some (length mh) \<rparr>])
            @ mk_copies mh xs prevB (length mh),
          reg mh oh xs (length mh),
          Some (last xs, (case headB of None \<Rightarrow> length mh | Some hb \<Rightarrow> hb),
                length mh + length xs - 1))"
  using assms
proof (induction xs arbitrary: mh oh headB prevB f)
  case Nil then show ?case by simp
next
  case (Cons a xs)
  then obtain f' where f: "f = Suc f'" by (cases f) auto
  from Cons.prems obtain p where p: "m_parent (mh ! a) = Some p" by auto
  define n where "n = length mh"
  define oh1 where "oh1 = oh[p := (oh ! p)\<lparr> o_children := o_children (oh ! p) @ [n] \<rparr>]"
  define hb where "hb = (case headB of None \<Rightarrow> n | Some hb \<Rightarrow> hb)"
  define mh1 where "mh1 = mh @ [(mh ! a)\<lparr> m_l := prevB, m_r := None \<rparr>]"
  define mh2 where "mh2 = (case prevB of None \<Rightarrow> mh1 | Some pb \<Rightarrow> mh1[pb := (mh1 ! pb)\<lparr> m_r := Some n \<rparr>])"
  define base where "base = (case prevB of None \<Rightarrow> mh | Some pb \<Rightarrow> mh[pb := (mh ! pb)\<lparr> m_r := Some n \<rparr>])"
  have mh2: "mh2 = base @ [(mh ! a)\<lparr> m_l := prevB, m_r := None \<rparr>]"
    using Cons.prems(7) by (cases prevB) (auto simp: mh2_def mh1_def base_def list_update_append1 nth_append)
  have lb: "length base = n" by (cases prevB) (auto simp: base_def n_def)
  have step: "copy_loop f mh oh (Some a) headB prevB to =
       (if m_end (mh ! a) = to then Inr (mh2, oh1, Some (a, hb, n))
        else copy_loop f' mh2 oh1 (m_r (mh ! a)) (Some hb) (Some n) to)"
    unfolding f mh2_def mh1_def oh1_def hb_def n_def by (simp add: p Let_def)
  show ?case
  proof (cases "xs = []")
    case True
    with Cons.prems have "m_end (mh ! a) = to" by simp
    with step True p show ?thesis unfolding mh2 base_def oh1_def hb_def n_def by simp
  next
    case False
    with Cons.prems have ne: "m_end (mh ! a) \<noteq> to" by simp
    from Cons.prems False have ra: "m_r (mh ! a) = Some (hd xs)" by (cases xs) auto
    have same: "mh2 ! x = mh ! x" if x: "x \<in> set xs" for x
    proof -
      from x Cons.prems have xl: "x < n" and xp: "prevB \<noteq> Some x" by (auto simp: n_def)
      show "mh2 ! x = mh ! x" unfolding mh2 using xl xp lb
        by (cases prevB) (auto simp: nth_append base_def)
    qed
    have l2: "length mh2 = Suc n" unfolding mh2 using lb by simp
    have rs: "rseg (\<lambda>x. m_r (mh2 ! x)) (Some (hd xs)) xs q"
    proof -
      have "rseg (\<lambda>x. m_r (mh ! x)) (Some (hd xs)) xs q" using Cons.prems(2) ra by simp
      moreover have "\<forall>x\<in>set xs. m_r (mh2 ! x) = m_r (mh ! x)" using same by simp
      ultimately show ?thesis using rseg_cong [of xs "\<lambda>x. m_r (mh2 ! x)" "\<lambda>x. m_r (mh ! x)"] by simp
    qed
    have ih: "copy_loop f' mh2 oh1 (Some (hd xs)) (Some hb) (Some n) to =
       Inr ((case Some n of None \<Rightarrow> mh2 | Some pb \<Rightarrow> mh2[pb := (mh2 ! pb)\<lparr> m_r := Some (length mh2) \<rparr>])
              @ mk_copies mh2 xs (Some n) (length mh2),
            reg mh2 oh1 xs (length mh2),
            Some (last xs, (case Some hb of None \<Rightarrow> length mh2 | Some hb \<Rightarrow> hb),
                  length mh2 + length xs - 1))"
    proof (rule Cons.IH [OF False rs])
      show "distinct xs" using Cons.prems by simp
      show "\<forall>x\<in>set xs. x < length mh2 \<and> m_parent (mh2 ! x) \<noteq> None"
        using Cons.prems(4) same l2 by (auto simp: n_def)
      show "m_end (mh2 ! last xs) = to" using Cons.prems(5) same [of "last xs"] False by simp
      show "\<forall>x\<in>set (butlast xs). m_end (mh2 ! x) \<noteq> to"
      proof
        fix x assume x: "x \<in> set (butlast xs)"
        then have "x \<in> set xs" by (rule in_set_butlastD)
        moreover from x False have "x \<in> set (butlast (a # xs))" by simp
        ultimately show "m_end (mh2 ! x) \<noteq> to" using Cons.prems(6) same by simp
      qed
      show "\<forall>pb. Some n = Some pb \<longrightarrow> pb < length mh2 \<and> pb \<notin> set xs"
        using Cons.prems(4) l2 by (auto simp: n_def)
      show "length xs \<le> f'" using Cons.prems f by simp
    qed
    have e1: "mh2[n := (mh2 ! n)\<lparr> m_r := Some (Suc n) \<rparr>] =
              base @ [(mh ! a)\<lparr> m_l := prevB, m_r := Some (Suc n) \<rparr>]"
      unfolding mh2 using lb by (simp add: list_update_append nth_append)
    have e2: "mk_copies mh2 xs (Some n) (Suc n) = mk_copies mh xs (Some n) (Suc n)"
      using same by (intro mk_copies_cong) simp
    have e3: "reg mh2 oh1 xs (Suc n) = reg mh oh1 xs (Suc n)"
      using same by (intro reg_cong) simp
    have "copy_loop f mh oh (Some a) headB prevB to =
       Inr (base @ (mh ! a)\<lparr> m_l := prevB, m_r := Some (Suc n) \<rparr> # mk_copies mh xs (Some n) (Suc n),
            reg mh oh1 xs (Suc n), Some (last xs, hb, Suc n + length xs - 1))"
      unfolding step using ne ra ih by (simp add: l2 e1 e2 e3)
    then show ?thesis
      using False p unfolding base_def oh1_def hb_def n_def by simp
  qed
qed

lemma mk_copies_nth:
  "j < length xs \<Longrightarrow>
   mk_copies h xs prev n ! j =
     (h ! (xs ! j))\<lparr> m_l := (if j = 0 then prev else Some (n + j - 1)),
                     m_r := (if Suc j = length xs then None else Some (n + j + 1)) \<rparr>"
proof (induction xs arbitrary: prev n j)
  case Nil then show ?case by simp
next
  case (Cons x xs)
  show ?case
  proof (cases j)
    case 0 then show ?thesis by auto
  next
    case (Suc i)
    with Cons.prems have "i < length xs" by simp
    from Cons.IH [OF this, of "Some n" "Suc n"] Suc show ?thesis by auto
  qed
qed

lemma reg_length [simp]: "length (reg mh oh xs n) = length oh"
  by (induction xs arbitrary: oh n) (auto split: option.splits)

lemma reg_fields:
  "o_l (reg mh oh xs n ! x) = o_l (oh ! x) \<and> o_r (reg mh oh xs n ! x) = o_r (oh ! x) \<and>
   o_bgn (reg mh oh xs n ! x) = o_bgn (oh ! x) \<and> o_end (reg mh oh xs n ! x) = o_end (oh ! x)"
proof (induction xs arbitrary: oh n)
  case Nil then show ?case by simp
next
  case (Cons c cs)
  show ?case
  proof (cases "m_parent (mh ! c)")
    case None then show ?thesis by simp
  next
    case (Some p)
    then show ?thesis
      using Cons.IH [of "oh[p := (oh ! p)\<lparr> o_children := o_children (oh ! p) @ [n] \<rparr>]" "Suc n"]
      by simp
  qed
qed

lemma reg_children:
  "\<forall>x\<in>set xs. \<exists>p. m_parent (mh ! x) = Some p \<and> p < length oh \<Longrightarrow> q < length oh \<Longrightarrow>
   o_children (reg mh oh xs n ! q) =
     o_children (oh ! q) @
       map snd (filter (\<lambda>(x, c). m_parent (mh ! x) = Some q) (zip xs [n..<n + length xs]))"
proof (induction xs arbitrary: oh n)
  case Nil then show ?case by simp
next
  case (Cons x xs)
  from Cons.prems obtain p where p: "m_parent (mh ! x) = Some p" "p < length oh" by auto
  let ?oh = "oh[p := (oh ! p)\<lparr> o_children := o_children (oh ! p) @ [n] \<rparr>]"
  have a: "\<forall>x\<in>set xs. \<exists>p. m_parent (mh ! x) = Some p \<and> p < length ?oh" using Cons.prems by auto
  have b: "q < length ?oh" using Cons.prems by simp
  have z: "zip (x # xs) [n..<n + length (x # xs)] = (x, n) # zip xs [Suc n..<Suc n + length xs]"
    by (simp add: upt_rec [of n] Suc_le_eq)
  from Cons.IH [OF a b, of "Suc n"] p Cons.prems(2) show ?case
    unfolding z by (cases "p = q") (auto simp: Suc_le_eq)
qed

lemma headopt_upt: "headopt [n..<m] = (if n < m then Some n else None)"
  by (simp add: upt_rec [of n])

lemma lastopt_upt: "lastopt [n..<m] = (if n < m then Some (m - 1) else None)"
proof (cases "n < m")
  case True
  then obtain k where "m = Suc k" "n \<le> k" by (cases m) auto
  then show ?thesis by simp
next
  case False then show ?thesis by simp
qed

lemma nxt_upt: "nxt [n..<m] x = (if n \<le> x \<and> Suc x < m then Some (Suc x) else None)"
proof (induction "m - n" arbitrary: n)
  case 0 then show ?case by simp
next
  case (Suc k)
  then have nm: "n < m" and k: "k = m - Suc n" by auto
  have "[n..<m] = n # [Suc n..<m]" using nm by (simp add: upt_rec [of n])
  with Suc.hyps(1) [OF k] show ?case by (auto simp: headopt_upt)
qed

lemma prv_upt: "prv [n..<m] x = (if n < x \<and> x < m then Some (x - 1) else None)"
proof (induction "m - n" arbitrary: n)
  case 0 then show ?case by simp
next
  case (Suc k)
  then have nm: "n < m" and k: "k = m - Suc n" by auto
  have u: "[n..<m] = n # [Suc n..<m]" using nm by (simp add: upt_rec [of n])
  have d: "distinct (n # [Suc n..<m])" by simp
  show ?case unfolding u prv_Cons [OF d] using Suc.hyps(1) [OF k]
    by (auto simp: headopt_upt)
qed

lemma copy_loop_none:
  "rpath (\<lambda>x. m_r (mh ! x)) p xs \<Longrightarrow> distinct xs \<Longrightarrow>
   \<forall>x\<in>set xs. x < length mh \<and> m_end (mh ! x) \<noteq> to \<Longrightarrow>
   \<forall>pb. prevB = Some pb \<longrightarrow> pb < length mh \<and> pb \<notin> set xs \<Longrightarrow>
   copy_loop f mh oh p headB prevB to \<noteq> Inr (mh', oh', Some r)"
proof (induction xs arbitrary: mh oh p headB prevB f)
  case Nil then show ?case by (cases f) auto
next
  case (Cons a xs)
  from Cons.prems have p: "p = Some a" by simp
  show ?case
  proof (cases f)
    case 0 then show ?thesis by simp
  next
    case (Suc f')
    show ?thesis
    proof (cases "m_parent (mh ! a)")
      case None then show ?thesis using p Suc by (simp add: Let_def)
    next
      case (Some q)
      define n where "n = length mh"
      define oh1 where "oh1 = oh[q := (oh ! q)\<lparr> o_children := o_children (oh ! q) @ [n] \<rparr>]"
      define hb where "hb = (case headB of None \<Rightarrow> n | Some hb \<Rightarrow> hb)"
      define mh1 where "mh1 = mh @ [(mh ! a)\<lparr> m_l := prevB, m_r := None \<rparr>]"
      define mh2 where "mh2 = (case prevB of None \<Rightarrow> mh1 | Some pb \<Rightarrow> mh1[pb := (mh1 ! pb)\<lparr> m_r := Some n \<rparr>])"
      from Cons.prems have ne: "m_end (mh ! a) \<noteq> to" by simp
      have step: "copy_loop f mh oh p headB prevB to =
                  copy_loop f' mh2 oh1 (m_r (mh ! a)) (Some hb) (Some n) to"
        unfolding Suc p mh2_def mh1_def oh1_def hb_def n_def using ne by (simp add: Some Let_def)
      have l2: "length mh2 = Suc n" by (cases prevB) (auto simp: mh2_def mh1_def n_def)
      have same: "mh2 ! x = mh ! x" if x: "x \<in> set xs" for x
      proof -
        from x Cons.prems have xl: "x < n" and xp: "prevB \<noteq> Some x" by (auto simp: n_def)
        then show "mh2 ! x = mh ! x"
          by (cases prevB) (auto simp: mh2_def mh1_def n_def nth_append nth_list_update)
      qed
      have "rpath (\<lambda>x. m_r (mh ! x)) (m_r (mh ! a)) xs" using Cons.prems(1) by simp
      moreover have "\<forall>x\<in>set xs. m_r (mh2 ! x) = m_r (mh ! x)" using same by simp
      ultimately have rp: "rpath (\<lambda>x. m_r (mh2 ! x)) (m_r (mh ! a)) xs"
        using rpath_cong [of xs "\<lambda>x. m_r (mh2 ! x)" "\<lambda>x. m_r (mh ! x)"] by simp
      have "copy_loop f' mh2 oh1 (m_r (mh ! a)) (Some hb) (Some n) to \<noteq> Inr (mh', oh', Some r)"
      proof (rule Cons.IH [OF rp])
        show "distinct xs" using Cons.prems by simp
        show "\<forall>x\<in>set xs. x < length mh2 \<and> m_end (mh2 ! x) \<noteq> to"
          using Cons.prems(3) same l2 by (auto simp: n_def)
        show "\<forall>pb. Some n = Some pb \<longrightarrow> pb < length mh2 \<and> pb \<notin> set xs"
          using Cons.prems(3) l2 by (auto simp: n_def)
      qed
      then show ?thesis unfolding step .
    qed
  qed
qed

lemma length_filter_zip:
  "length xs = length ys \<Longrightarrow>
   length (filter (\<lambda>(x, c). P x) (zip xs ys)) = length (filter P xs)"
  by (induction xs ys rule: list_induct2) auto

lemma map_snd_filter_zip_upt:
  "map snd (filter (\<lambda>(x, c). P x) (zip xs [n..<n + length xs])) =
   map (\<lambda>j. n + j) (filter (\<lambda>j. P (xs ! j)) [0..<length xs])"
proof (induction xs arbitrary: n rule: rev_induct)
  case Nil then show ?case by simp
next
  case (snoc x xs)
  have "[n..<n + length (xs @ [x])] = [n..<n + length xs] @ [n + length xs]" by simp
  then have z: "zip (xs @ [x]) [n..<n + length (xs @ [x])] =
             zip xs [n..<n + length xs] @ [(x, n + length xs)]"
    by (simp only: zip_append2) simp
  have f: "filter (\<lambda>j. P ((xs @ [x]) ! j)) [0..<length xs] = filter (\<lambda>j. P (xs ! j)) [0..<length xs]"
    by (rule filter_cong) (auto simp: nth_append)
  show ?case unfolding z using snoc.IH [of n] f by (simp add: nth_append)
qed

lemma amp_spec:
  assumes wf: "wf N s1 ms os"
    and ib: "is_in_bounds s b e" and sp: "is_splitable s b e = Inr True"
    and ts: "two_split s b e = Inr s1" and c1: "chrm s1 = chrm s"
    and res: "amp s b e = Inr (s', ok)"
  shows "ok \<and> (\<exists>pre mid post. ms = pre @ mid @ post \<and> mid \<noteq> [] \<and>
     m_bgn (muts s1 ! hd mid) = b \<and> m_end (muts s1 ! last mid) = e \<and>
     wf N s' (pre @ mid @ [length (muts s1)..<length (muts s1) + length mid] @ post) os \<and>
     chrm s' = take (nat b) (chrm s) @ drop (nat b) (take (nat (e + 1)) (chrm s)) @
               drop (nat b) (take (nat (e + 1)) (chrm s)) @ drop (nat (e + 1)) (chrm s) \<and>
     org s' = org s1 \<and> mut s' = mut s1 \<and> length (orgs s') = length (orgs s1) \<and>
     (\<forall>q<length (orgs s1). oseg (orgs s') q = oseg (orgs s1) q \<and>
        o_l (orgs s' ! q) = o_l (orgs s1 ! q) \<and> o_r (orgs s' ! q) = o_r (orgs s1 ! q) \<and>
        o_children (orgs s' ! q) = o_children (orgs s1 ! q) @
          map (\<lambda>j. length (muts s1) + j)
            (filter (\<lambda>j. m_parent (muts s1 ! (mid ! j)) = Some q) [0..<length mid])) \<and>
     length (muts s') = length (muts s1) + length mid \<and>
     (\<forall>x<length (muts s1). m_is_inv (muts s' ! x) = m_is_inv (muts s1 ! x) \<and>
        m_parent (muts s' ! x) = m_parent (muts s1 ! x)) \<and>
     (\<forall>j<length mid.
        m_is_inv (muts s' ! (length (muts s1) + j)) = m_is_inv (muts s1 ! (mid ! j)) \<and>
        m_parent (muts s' ! (length (muts s1) + j)) = m_parent (muts s1 ! (mid ! j)) \<and>
        mseg (muts s') (length (muts s1) + j) =
          (m_bgn (muts s1 ! (mid ! j)) + (e - b + 1), m_end (muts s1 ! (mid ! j)) + (e - b + 1))) \<and>
     (\<forall>x\<in>set (pre @ mid). mseg (muts s') x = mseg (muts s1) x) \<and>
     (\<forall>x\<in>set post. mseg (muts s') x =
        (m_bgn (muts s1 ! x) + (e - b + 1), m_end (muts s1 ! x) + (e - b + 1))))"
proof -
  define h where "h = muts s1"
  define n0 where "n0 = length h"
  define M where "M = int (length (chrm s))"
  from ib have be: "0 \<le> b" "b \<le> e" "e < M" by (auto simp: is_in_bounds_def M_def)
  from wf have ch: "mchain h (mut s1) ms" and och: "ochain (orgs s1) (Some (org s1)) os"
    and ct: "contig 0 (map (mseg h) ms) M"
    and oct: "contig 0 (map (oseg (orgs s1)) os) (int N)"
    and pr: "par_ok h (orgs s1) ms os" and kd: "kids_ok h (orgs s1) ms os"
    by (simp_all add: wf_def h_def M_def c1)
  from ch have d: "distinct ms" and bnd: "\<forall>x\<in>set ms. x < n0"
    and hd: "mut s1 = headopt ms"
    and ptr: "\<forall>x\<in>set ms. m_r (h ! x) = nxt ms x \<and> m_l (h ! x) = prv ms x"
    by (auto simp: chain_def n0_def)
  from och have obnd: "\<forall>q\<in>set os. q < length (orgs s1)" by (auto simp: chain_def)
  from res ib sp ts obtain mh0 oh0 r0 where
    cft0: "copy_from_to h (orgs s1) (mut s1) b e = Inr (mh0, oh0, Some r0)"
    by (auto simp: amp_def h_def split: sum.splits option.splits prod.splits bool.splits)
  obtain cur where sk: "seek (Suc (length h)) h (\<lambda>nd. m_bgn nd = b) (mut s1) = Inr cur"
    and cl0: "copy_loop (Suc (length h)) h (orgs s1) cur None None e = Inr (mh0, oh0, Some r0)"
    using cft0 by (auto simp: copy_from_to_def split: sum.splits)
  from cl0 obtain head where cur: "cur = Some head" by (cases cur) auto
  note s1h = sk [unfolded cur]
  from head_decomp [OF ch s1h] obtain pre rest where ms1: "ms = pre @ head # rest"
    and bih: "m_bgn (h ! head) = b" by blast
  have lenms: "length ms \<le> n0" using chain_length [OF ch] by (simp add: n0_def)
  have fd: "\<exists>tail. find (\<lambda>x. m_end (h ! x) = e) (head # rest) = Some tail"
  proof (rule ccontr)
    assume "\<not> ?thesis"
    then have "find (\<lambda>x. m_end (h ! x) = e) (head # rest) = None" by simp
    then have a: "\<forall>x\<in>set (head # rest). m_end (h ! x) \<noteq> e"
      unfolding find_None_iff by blast
    have "copy_loop (Suc (length h)) h (orgs s1) (Some head) None None e \<noteq> Inr (mh0, oh0, Some r0)"
    proof (rule copy_loop_none [OF chain_rpath_suffix [OF ch [unfolded ms1]]])
      show "distinct (head # rest)" using d ms1 by simp
      show "\<forall>x\<in>set (head # rest). x < length h \<and> m_end (h ! x) \<noteq> e"
        using a bnd ms1 by (auto simp: n0_def)
      show "\<forall>pb. None = Some pb \<longrightarrow> pb < length h \<and> pb \<notin> set (head # rest)" by simp
    qed
    with cl0 cur show False by simp
  qed
  then obtain tail where fd: "find (\<lambda>x. m_end (h ! x) = e) (head # rest) = Some tail" by blast
  from tail_decomp [OF ch [unfolded ms1] fd] obtain mid post where
    ms2: "head # rest = mid @ post" and ne: "mid \<noteq> []" and hm: "hd mid = head" and lm: "last mid = tail"
    and eit: "m_end (h ! tail) = e" and nbl: "\<forall>x\<in>set (butlast mid). m_end (h ! x) \<noteq> e"
    and nL: "m_l (h ! head) = lastopt pre" and nR: "m_r (h ! tail) = headopt post"
    and mr: "\<forall>x\<in>set mid. m_r (h ! x) = (if x = tail then headopt post else nxt mid x)"
    by blast
  have ms: "ms = pre @ mid @ post" using ms1 ms2 by simp
  from d ms have dm: "distinct mid" and dpre: "distinct pre" and dpost: "distinct post"
    and i1: "set pre \<inter> set mid = {}" and i2: "set pre \<inter> set post = {}" and i3: "set mid \<inter> set post = {}"
    by auto
  have ihm: "head \<in> set mid" using hm ne by (cases mid) auto
  have itm: "tail \<in> set mid" using lm ne by (cases mid rule: rev_cases) auto
  have lom: "lastopt mid = Some tail" using lm ne by (cases mid rule: rev_cases) auto
  have hom: "headopt mid = Some head" using hm ne by (cases mid) auto
  define len where "len = length mid"
  have len0: "0 < len" using ne by (simp add: len_def)
  define cs where "cs = [n0..<n0 + len]"
  define tc where "tc = n0 + len - 1"
  define dd where "dd = e - b + 1"
  define mh where "mh = h @ mk_copies h mid None n0"
  define oh' where "oh' = reg h (orgs s1) mid n0"
  have par_mid: "\<forall>x\<in>set mid. \<exists>p. m_parent (h ! x) = Some p \<and> p < length (orgs s1)"
  proof
    fix c assume c: "c \<in> set mid"
    then have "c \<in> set ms" using ms by simp
    with pr obtain q where "q \<in> set os" "m_parent (h ! c) = Some q" by (auto simp: par_ok_def)
    with obnd show "\<exists>p. m_parent (h ! c) = Some p \<and> p < length (orgs s1)" by auto
  qed
  have cl: "copy_loop (Suc (length h)) h (orgs s1) (Some (hd mid)) None None e =
     Inr ((case None of None \<Rightarrow> h | Some pb \<Rightarrow> h[pb := (h ! pb)\<lparr> m_r := Some (length h) \<rparr>])
            @ mk_copies h mid None (length h),
          reg h (orgs s1) mid (length h),
          Some (last mid, (case None of None \<Rightarrow> length h | Some hb \<Rightarrow> hb),
                length h + length mid - 1))"
  proof (rule copy_loop_spec [OF ne _ dm])
    have "\<forall>x\<in>set mid. m_r (h ! x) = (if lastopt mid = Some x then headopt post else nxt mid x)"
      using mr lom by auto
    from rseg_nxt [OF dm this] ne hom hm
    show "rseg (\<lambda>x. m_r (h ! x)) (Some (hd mid)) mid (headopt post)" by simp
    show "\<forall>x\<in>set mid. x < length h \<and> m_parent (h ! x) \<noteq> None"
      using par_mid bnd ms by (auto simp: n0_def)
    show "m_end (h ! last mid) = e" using eit lm by simp
    show "\<forall>x\<in>set (butlast mid). m_end (h ! x) \<noteq> e" by (rule nbl)
    show "\<forall>pb. None = Some pb \<longrightarrow> pb < length h \<and> pb \<notin> set mid" by simp
    show "length mid \<le> Suc (length h)" using lenms ms by (simp add: n0_def)
  qed
  have cft: "copy_from_to h (orgs s1) (mut s1) b e = Inr (mh, oh', Some (tail, n0, tc))"
    using cl s1h by (simp add: copy_from_to_def hm lm mh_def oh'_def n0_def tc_def len_def)
  define insL where "insL = m_r (mh ! tail)"
  define h1 where "h1 = mh[tail := (mh ! tail)\<lparr> m_r := Some n0 \<rparr>]"
  define h2 where "h2 = h1[n0 := (h1 ! n0)\<lparr> m_l := Some tail \<rparr>]"
  define h3 where "h3 = h2[tc := (h2 ! tc)\<lparr> m_r := insL \<rparr>]"
  define h4 where "h4 = (case insL of None \<Rightarrow> h3 | Some y \<Rightarrow> h3[y := (h3 ! y)\<lparr> m_l := Some tc \<rparr>])"
  define h5 where "h5 = upd_list (shift_node dd) h4 (cs @ post)"
  have tl0: "tail < n0" "head < n0" using bnd ms itm ihm by auto
  have lmh: "length mh = n0 + len" by (simp add: mh_def n0_def len_def)
  have mh_old: "mh ! x = h ! x" if "x < n0" for x using that by (simp add: mh_def nth_append n0_def)
  have insL: "insL = headopt post" using nR tl0 by (simp add: insL_def mh_old)
  have Rp: "insL = Some x \<Longrightarrow> x \<in> set post" for x using insL headopt_in [of post x] by simp
  have Rl: "insL = Some y \<Longrightarrow> y < n0" for y using Rp [of y] bnd ms by auto
  have tcl: "tc < n0 + len" "n0 \<le> tc" using len0 by (auto simp: tc_def)
  have l1: "length h1 = n0 + len" by (simp add: h1_def lmh)
  have l2: "length h2 = n0 + len" by (simp add: h2_def l1)
  have l3: "length h3 = n0 + len" by (simp add: h3_def l2)
  have l4: "length h4 = n0 + len" by (simp add: h4_def l3 split: option.splits)
  have l5: "length h5 = n0 + len" by (simp add: h5_def l4)
  have h1n: "h1 ! x = (if x = tail then (mh ! tail)\<lparr> m_r := Some n0 \<rparr> else mh ! x)" for x
    using tl0 lmh by (simp add: h1_def nth_list_update)
  have h2n: "h2 ! x = (if x = n0 then (h1 ! n0)\<lparr> m_l := Some tail \<rparr> else h1 ! x)" for x
    using len0 l1 by (simp add: h2_def nth_list_update)
  have h3n: "h3 ! x = (if x = tc then (h2 ! tc)\<lparr> m_r := insL \<rparr> else h2 ! x)" for x
    using tcl l2 by (simp add: h3_def nth_list_update)
  have h4n: "h4 ! x = (if insL = Some x then (h3 ! x)\<lparr> m_l := Some tc \<rparr> else h3 ! x)" for x
    using Rl l3 by (cases insL) (auto simp: h4_def nth_list_update)
  have in_cs: "x \<in> set cs \<longleftrightarrow> n0 \<le> x \<and> x < n0 + len" for x by (auto simp: cs_def)
  have dcs: "distinct cs" by (simp add: cs_def)
  have j1: "set cs \<inter> set ms = {}" using bnd in_cs by fastforce
  have dcp: "distinct (cs @ post)" using dcs dpost j1 ms by auto
  have node_new: "h4 ! (n0 + j) = (h ! (mid ! j))\<lparr>
        m_l := (if j = 0 then Some tail else Some (n0 + j - 1)),
        m_r := (if Suc j = len then insL else Some (n0 + j + 1)) \<rparr>" if j: "j < len" for j
  proof -
    have a: "mh ! (n0 + j) = (h ! (mid ! j))\<lparr> m_l := (if j = 0 then None else Some (n0 + j - 1)),
                     m_r := (if Suc j = length mid then None else Some (n0 + j + 1)) \<rparr>"
      using mk_copies_nth [of j mid h None n0] j by (simp add: mh_def nth_append n0_def len_def)
    have b1: "n0 + j \<noteq> tail" using tl0 by simp
    have b2: "insL \<noteq> Some (n0 + j)" using Rl [of "n0 + j"] by auto
    show ?thesis
    proof (cases "Suc j = len")
      case True
      then have tcj: "tc = n0 + j" by (simp add: tc_def)
      show ?thesis using b1 b2 a True by (cases "j = 0") (simp_all add: h4n h3n h2n h1n len_def tcj)
    next
      case False
      then have tcj: "n0 + j \<noteq> tc" using len0 by (auto simp: tc_def)
      show ?thesis using b1 b2 a False tcj by (cases "j = 0") (simp_all add: h4n h3n h2n h1n len_def)
    qed
  qed
  have node_old: "h4 ! x = (h ! x)\<lparr>
        m_r := (if x = tail then Some n0 else m_r (h ! x)),
        m_l := (if insL = Some x then Some tc else m_l (h ! x)) \<rparr>" if x: "x < n0" for x
  proof -
    have "x \<noteq> n0" "x \<noteq> tc" using x tcl by auto
    then show ?thesis using x by (simp add: h4n h3n h2n h1n mh_old)
  qed
  have h5n: "h5 ! x = (if x \<in> set (cs @ post) then shift_node dd (h4 ! x) else h4 ! x)"
    if "x < n0 + len" for x
    unfolding h5_def using dcp that l4 by (simp add: upd_list_nth)
  text \<open>the loop\<close>
  have hcs: "headopt cs = Some n0" "lastopt cs = Some tc" using len0
    by (simp_all add: cs_def headopt_upt lastopt_upt tc_def)
  have r4: "\<forall>x\<in>set (cs @ post). m_r (h4 ! x) = nxt (cs @ post) x"
  proof
    fix x assume "x \<in> set (cs @ post)"
    then consider "x \<in> set cs" | "x \<in> set post" by auto
    then show "m_r (h4 ! x) = nxt (cs @ post) x"
    proof cases
      case 1
      then obtain j where j: "x = n0 + j" "j < len" using in_cs [of x] by (auto simp: le_iff_add)
      from 1 j1 ms have xn: "x \<notin> set post" by auto
      have "nxt (cs @ post) x = (if lastopt cs = Some x then headopt post else nxt cs x)"
        using nxt_append_in [OF 1 xn dcs] .
      also have "\<dots> = (if Suc j = len then insL else Some (n0 + j + 1))"
        using j len0 by (auto simp: insL cs_def nxt_upt lastopt_upt)
      finally show ?thesis using node_new [OF j(2)] j by simp
    next
      case 2
      then have xl: "x < n0" and xn: "x \<notin> set cs" "x \<notin> set mid" "x \<notin> set (pre @ mid)"
        using bnd ms j1 i2 i3 by auto
      from 2 itm i3 have xt: "x \<noteq> tail" by auto
      have "nxt ms x = nxt post x" using nxt_append_notin [OF xn(3), of post] by (simp add: ms)
      with ptr 2 ms xn xt show ?thesis by (simp add: node_old [OF xl])
    qed
  qed
  have rp: "rpath (\<lambda>x. m_r (h4 ! x)) (Some n0) (cs @ post)"
    using rpath_nxt [OF dcp r4] hcs len0 by (simp add: headopt_append cs_def)
  have sl: "shift_loop (Suc (n0 + len)) h4 (Some n0) dd = Inr h5"
    unfolding h5_def using rp dcp
  proof (rule shift_loop_rpath)
    show "length (cs @ post) < Suc (n0 + len)" using lenms ms by (simp add: cs_def len_def)
  qed
  have tri: "tri_split_str (chrm s1) b e =
       (take (nat b) (chrm s), drop (nat b) (take (nat (e + 1)) (chrm s)), drop (nat (e + 1)) (chrm s))"
    using be by (simp add: c1 tri_split_in_bounds M_def)
  have "amp s b e =
      (case shift_loop (Suc (length h4)) h4 (Some n0) dd of
              Inl err \<Rightarrow> Inl err
            | Inr h5' \<Rightarrow>
                (let (c1, c2, c3) = tri_split_str (chrm s1) b e
                 in Inr (s1\<lparr> chrm := c1 @ c2 @ c2 @ c3, orgs := oh', muts := h5' \<rparr>, True)))"
    unfolding h4_def h3_def h2_def h1_def insL_def dd_def
    using ib sp ts cft [unfolded h_def]
    by (simp add: amp_def Let_def del: shift_loop.simps)
  then have "amp s b e = Inr (s1\<lparr> chrm := take (nat b) (chrm s) @ drop (nat b) (take (nat (e + 1)) (chrm s)) @
               drop (nat b) (take (nat (e + 1)) (chrm s)) @ drop (nat (e + 1)) (chrm s),
                               orgs := oh', muts := h5 \<rparr>, True)"
    unfolding l4 sl sum.case by (simp add: tri)
  with res have s': "s' = s1\<lparr> chrm := take (nat b) (chrm s) @ drop (nat b) (take (nat (e + 1)) (chrm s)) @
               drop (nat b) (take (nat (e + 1)) (chrm s)) @ drop (nat (e + 1)) (chrm s),
                               orgs := oh', muts := h5 \<rparr>" and ok: "ok" by simp_all
  text \<open>the new state\<close>
  define A where "A = pre @ mid"
  define ms' where "ms' = A @ cs @ post"
  have msA: "ms = A @ post" by (simp add: ms A_def)
  have dA: "distinct A" using d msA by simp
  have Apost: "set A \<inter> set post = {}" using d msA by auto
  have Acs: "set A \<inter> set cs = {}" using j1 msA by auto
  have lA: "lastopt A = Some tail" using lom ne by (simp add: A_def lastopt_append)
  have hcp: "headopt (cs @ post) = Some n0" using hcs len0 by (simp add: headopt_append cs_def)
  have dms': "distinct ms'" using dA dcp Acs Apost by (auto simp: ms'_def)
  have Al: "x \<in> set A \<Longrightarrow> x < n0" for x using bnd msA by simp
  have nodes: "m_l (h5 ! x) = prv ms' x \<and> m_r (h5 ! x) = nxt ms' x \<and> x < length h5" if x: "x \<in> set ms'" for x
  proof -
    consider "x \<in> set A" | "x \<in> set cs" | "x \<in> set post" using x by (auto simp: ms'_def)
    then show ?thesis
    proof cases
      case 1
      then have xl: "x < n0" by (rule Al)
      from 1 Acs Apost have xn: "x \<notin> set cs" "x \<notin> set post" "x \<notin> set (cs @ post)" by auto
      from 1 ptr msA have px: "m_r (h ! x) = nxt (A @ post) x" "m_l (h ! x) = prv (A @ post) x" by auto
      from xn Rp have ni: "insL \<noteq> Some x" by auto
      have a: "nxt (A @ post) x = (if lastopt A = Some x then headopt post else nxt A x)"
        using nxt_append_in [OF 1 xn(2) dA] .
      have b': "nxt (A @ cs @ post) x = (if lastopt A = Some x then headopt (cs @ post) else nxt A x)"
        using nxt_append_in [OF 1 xn(3) dA] .
      have c: "prv (A @ post) x = prv A x" using xn by simp
      have d': "prv (A @ cs @ post) x = prv A x" using prv_append_notin [OF xn(3), of A] .
      have e1: "h5 ! x = h4 ! x" using xl xn by (simp add: h5n)
      show ?thesis unfolding ms'_def e1 using xl px a b' c d' lA hcp ni
        by (auto simp: node_old [OF xl] l5)
    next
      case 2
      then obtain j where j: "x = n0 + j" "j < len" using in_cs [of x] by (auto simp: le_iff_add)
      from 2 Acs j1 ms have xn: "x \<notin> set A" "x \<notin> set post" by auto
      have xcp: "x \<in> set (cs @ post)" using 2 by simp
      have a: "nxt (A @ cs @ post) x = nxt (cs @ post) x" using xn by simp
      have b': "prv (A @ cs @ post) x = (if headopt (cs @ post) = Some x then lastopt A else prv (cs @ post) x)"
        using prv_append_in [OF xcp xn(1) dcp] .
      have c: "prv (cs @ post) x = prv cs x" using xn by simp
      have d': "prv cs x = (if n0 < x then Some (x - 1) else None)"
        using 2 in_cs [of x] by (simp add: cs_def prv_upt)
      have e1: "h5 ! x = shift_node dd (h4 ! x)" using j xcp by (simp add: h5n)
      have "m_r (h5 ! x) = nxt ms' x" unfolding ms'_def a e1 using r4 xcp by (simp add: shift_node_def)
      moreover have "m_l (h5 ! x) = prv ms' x" unfolding ms'_def b' c d' e1 hcp lA
        using j node_new [OF j(2)] by (auto simp: shift_node_def)
      moreover have "x < length h5" using j by (simp add: l5)
      ultimately show ?thesis by simp
    next
      case 3
      then have xl: "x < n0" using bnd ms by auto
      from 3 Apost j1 ms have xn: "x \<notin> set A" "x \<notin> set cs" "x \<notin> set (A @ cs)" by auto
      have xcp: "x \<in> set (cs @ post)" using 3 by simp
      from 3 ptr msA have px: "m_l (h ! x) = prv (A @ post) x" by auto
      have a: "nxt (A @ cs @ post) x = nxt (cs @ post) x" using xn by simp
      have b': "prv ((A @ cs) @ post) x = (if headopt post = Some x then lastopt (A @ cs) else prv post x)"
        using prv_append_in [OF 3 xn(3) dpost] .
      have c: "prv (A @ post) x = (if headopt post = Some x then lastopt A else prv post x)"
        using prv_append_in [OF 3 xn(1) dpost] .
      have lAc: "lastopt (A @ cs) = Some tc" using hcs len0 by (simp add: lastopt_append cs_def)
      have e1: "h5 ! x = shift_node dd (h4 ! x)" using xl xcp by (simp add: h5n)
      have "m_r (h5 ! x) = nxt ms' x" unfolding ms'_def a e1 using r4 xcp by (simp add: shift_node_def)
      moreover have "m_l (h5 ! x) = prv ms' x"
        using b' px c lAc lA insL unfolding ms'_def e1
        by (auto simp: shift_node_def node_old [OF xl])
      moreover have "x < length h5" using xl by (simp add: l5)
      ultimately show ?thesis by simp
    qed
  qed
  have data_old: "m_parent (h5 ! x) = m_parent (h ! x) \<and> m_is_inv (h5 ! x) = m_is_inv (h ! x) \<and>
      mseg h5 x = (if x \<in> set post then (m_bgn (h ! x) + dd, m_end (h ! x) + dd) else mseg h x)"
    if xl: "x < n0" for x
  proof -
    have "x \<notin> set cs" using xl in_cs [of x] by simp
    then show ?thesis using xl by (simp add: h5n node_old [OF xl] shift_node_def mseg_def)
  qed
  have data_new: "m_parent (h5 ! (n0 + j)) = m_parent (h ! (mid ! j)) \<and>
      m_is_inv (h5 ! (n0 + j)) = m_is_inv (h ! (mid ! j)) \<and>
      mseg h5 (n0 + j) = (m_bgn (h ! (mid ! j)) + dd, m_end (h ! (mid ! j)) + dd)"
    if j: "j < len" for j
  proof -
    have "n0 + j \<in> set cs" using j in_cs [of "n0 + j"] by simp
    then show ?thesis using j by (simp add: h5n node_new [OF j] shift_node_def mseg_def)
  qed
  have mut': "mut s' = headopt ms'"
    using s' hd ms ne by (cases pre) (auto simp: headopt_append ms'_def A_def)
  have 1: "mchain (muts s') (mut s') ms'"
    unfolding chain_def using dms' mut' nodes s' by auto
  have of: "o_l (oh' ! q) = o_l (orgs s1 ! q) \<and> o_r (oh' ! q) = o_r (orgs s1 ! q) \<and>
            o_bgn (oh' ! q) = o_bgn (orgs s1 ! q) \<and> o_end (oh' ! q) = o_end (orgs s1 ! q)" for q
    unfolding oh'_def by (rule reg_fields)
  have lo: "length oh' = length (orgs s1)" by (simp add: oh'_def)
  have 2: "ochain (orgs s') (Some (org s')) os"
    using och of lo s' by (auto simp: chain_def)
  from ct obtain m1 m2 where cc1: "contig 0 (map (mseg h) pre) m1"
    and cc2: "contig m1 (map (mseg h) mid) m2"
    and cc3: "contig m2 (map (mseg h) post) M"
    unfolding ms by (auto simp: contig_append)
  have m1: "m1 = b" using contig_hd [OF cc2 ne] bih hm by (simp add: mseg_def)
  have m2: "m2 = e + 1" using contig_last [OF cc2 ne] eit lm by (simp add: mseg_def)
  have sA: "map (mseg h5) A = map (mseg h) A"
    using data_old Al Apost by auto
  have spost: "map (mseg h5) post = map (\<lambda>(b', e'). (b' + dd, e' + dd)) (map (mseg h) post)"
    using data_old bnd ms by (auto simp: mseg_def)
  have scs: "map (mseg h5) cs = map (\<lambda>(b', e'). (b' + dd, e' + dd)) (map (mseg h) mid)"
  proof (rule nth_equalityI)
    show "length (map (mseg h5) cs) = length (map (\<lambda>(b', e'). (b' + dd, e' + dd)) (map (mseg h) mid))"
      by (simp add: cs_def len_def)
    fix i assume "i < length (map (mseg h5) cs)"
    then have i: "i < len" by (simp add: cs_def)
    then have "cs ! i = n0 + i" by (simp add: cs_def)
    with i data_new [OF i]
    show "map (mseg h5) cs ! i = map (\<lambda>(b', e'). (b' + dd, e' + dd)) (map (mseg h) mid) ! i"
      by (simp add: cs_def len_def mseg_def)
  qed
  have "contig (b + dd) (map (\<lambda>(b', e'). (b' + dd, e' + dd)) (map (mseg h) mid)) (e + 1 + dd)"
    using cc2 unfolding m1 m2 by (rule contig_shift)
  then have ccs: "contig (e + 1) (map (mseg h5) cs) (e + 1 + dd)" by (simp add: scs dd_def)
  have "contig (e + 1 + dd) (map (\<lambda>(b', e'). (b' + dd, e' + dd)) (map (mseg h) post)) (M + dd)"
    using cc3 unfolding m2 by (rule contig_shift)
  then have cp: "contig (e + 1 + dd) (map (mseg h5) post) (M + dd)" by (simp add: spost)
  have "contig 0 (map (mseg h) A) (e + 1)"
    unfolding A_def using cc1 cc2 m1 m2 by (auto simp: contig_append)
  then have cA: "contig 0 (map (mseg h5) A) (e + 1)" by (simp only: sA)
  have lc: "int (length (chrm s')) = M + dd"
    using be s' by (auto simp: M_def dd_def)
  have 3: "contig 0 (map (mseg (muts s')) ms') (int (length (chrm s')))"
    unfolding lc ms'_def using cA ccs cp s' by (auto simp: contig_append)
  have os_eq: "oseg oh' = oseg (orgs s1)" using of by (auto simp: oseg_def)
  have 4: "contig 0 (map (oseg (orgs s')) os) (int N)" using oct s' os_eq by simp
  have mid_ms: "j < len \<Longrightarrow> mid ! j \<in> set ms" for j using ms by (simp add: len_def)
  have 5: "par_ok (muts s') (orgs s') ms' os"
    unfolding par_ok_def
  proof
    fix m assume m': "m \<in> set ms'"
    then consider "m \<in> set ms" | "m \<in> set cs" by (auto simp: ms'_def msA)
    then show "\<exists>q\<in>set os. m_parent (muts s' ! m) = Some q \<and>
       m_end (muts s' ! m) - m_bgn (muts s' ! m) = o_end (orgs s' ! q) - o_bgn (orgs s' ! q)"
    proof cases
      case 1
      with pr obtain q where "q \<in> set os" "m_parent (h ! m) = Some q"
        "m_end (h ! m) - m_bgn (h ! m) = o_end (orgs s1 ! q) - o_bgn (orgs s1 ! q)"
        by (auto simp: par_ok_def)
      moreover from 1 bnd have "m < n0" by simp
      ultimately show ?thesis
        using data_old [of m] of [of q] s' by (intro bexI [of _ q]) (auto simp: mseg_def split: if_splits)
    next
      case 2
      then obtain j where j: "m = n0 + j" "j < len" using in_cs [of m] by (auto simp: le_iff_add)
      from mid_ms [OF j(2)] pr obtain q where "q \<in> set os" "m_parent (h ! (mid ! j)) = Some q"
        "m_end (h ! (mid ! j)) - m_bgn (h ! (mid ! j)) = o_end (orgs s1 ! q) - o_bgn (orgs s1 ! q)"
        by (auto simp: par_ok_def)
      then show ?thesis
        using data_new [OF j(2)] of [of q] s' j by (intro bexI [of _ q]) (auto simp: mseg_def)
    qed
  qed
  have kids: "o_children (oh' ! q) = o_children (orgs s1 ! q) @
          map (\<lambda>j. n0 + j) (filter (\<lambda>j. m_parent (h ! (mid ! j)) = Some q) [0..<len])"
    if ql: "q < length (orgs s1)" for q
    unfolding oh'_def len_def reg_children [OF par_mid ql] map_snd_filter_zip_upt ..
  have 6: "kids_ok (muts s') (orgs s') ms' os"
    unfolding kids_ok_def
  proof
    fix q assume q: "q \<in> set os"
    from q obnd have ql: "q < length (orgs s1)" by simp
    from kd q have dq: "distinct (o_children (orgs s1 ! q))"
      and sq: "set (o_children (orgs s1 ! q)) = {m \<in> set ms. m_parent (h ! m) = Some q}"
      by (simp_all add: kids_ok_def)
    define new where "new = map (\<lambda>j. n0 + j) (filter (\<lambda>j. m_parent (h ! (mid ! j)) = Some q) [0..<len])"
    have dn: "distinct new" unfolding new_def by (simp add: distinct_map inj_on_def)
    have sn: "set new = {m \<in> set cs. m_parent (h5 ! m) = Some q}"
    proof (rule set_eqI)
      fix m
      show "m \<in> set new \<longleftrightarrow> m \<in> {m \<in> set cs. m_parent (h5 ! m) = Some q}"
      proof
        assume "m \<in> set new"
        then obtain j where j: "m = n0 + j" "j < len" "m_parent (h ! (mid ! j)) = Some q"
          by (auto simp: new_def)
        with data_new [OF j(2)] in_cs [of m] show "m \<in> {m \<in> set cs. m_parent (h5 ! m) = Some q}" by simp
      next
        assume "m \<in> {m \<in> set cs. m_parent (h5 ! m) = Some q}"
        then have mc: "m \<in> set cs" and pm: "m_parent (h5 ! m) = Some q" by auto
        from mc obtain j where j: "m = n0 + j" "j < len" using in_cs [of m] by (auto simp: le_iff_add)
        with data_new [OF j(2)] pm have "m_parent (h ! (mid ! j)) = Some q" by simp
        with j show "m \<in> set new" by (auto simp: new_def)
      qed
    qed
    have so: "set (o_children (orgs s1 ! q)) = {m \<in> set ms. m_parent (h5 ! m) = Some q}"
      unfolding sq using data_old bnd by auto
    have dis: "set (o_children (orgs s1 ! q)) \<inter> set new = {}"
      unfolding so sn using j1 by auto
    have "set ms' = set ms \<union> set cs" by (auto simp: ms'_def msA)
    then have "{m \<in> set ms'. m_parent (h5 ! m) = Some q} =
               set (o_children (orgs s1 ! q)) \<union> set new"
      unfolding so sn by auto
    with kids [OF ql] dq dn dis s' show "distinct (o_children (orgs s' ! q)) \<and>
        set (o_children (orgs s' ! q)) = {m \<in> set ms'. m_parent (muts s' ! m) = Some q}"
      by (simp add: new_def)
  qed
  have wf': "wf N s' ms' os" using 1 2 3 4 5 6 by (simp add: wf_def)
  have z1: "ok" by (rule ok)
  have z2: "ms = pre @ mid @ post" by (rule ms)
  have z3: "mid \<noteq> []" by (rule ne)
  have z4: "m_bgn (muts s1 ! hd mid) = b" using bih hm by (simp add: h_def)
  have z5: "m_end (muts s1 ! last mid) = e" using eit lm by (simp add: h_def)
  have z6: "wf N s' (pre @ mid @ [length (muts s1)..<length (muts s1) + length mid] @ post) os"
    using wf' by (simp add: ms'_def A_def cs_def n0_def h_def len_def)
  have z7: "chrm s' = take (nat b) (chrm s) @ drop (nat b) (take (nat (e + 1)) (chrm s)) @
               drop (nat b) (take (nat (e + 1)) (chrm s)) @ drop (nat (e + 1)) (chrm s)"
    using s' by simp
  have z8: "org s' = org s1 \<and> mut s' = mut s1 \<and> length (orgs s') = length (orgs s1)"
    using s' lo by simp
  have z10: "\<forall>q<length (orgs s1). oseg (orgs s') q = oseg (orgs s1) q \<and>
        o_l (orgs s' ! q) = o_l (orgs s1 ! q) \<and> o_r (orgs s' ! q) = o_r (orgs s1 ! q) \<and>
        o_children (orgs s' ! q) = o_children (orgs s1 ! q) @
          map (\<lambda>j. length (muts s1) + j)
            (filter (\<lambda>j. m_parent (muts s1 ! (mid ! j)) = Some q) [0..<length mid])"
    using s' of os_eq kids by (simp add: n0_def h_def len_def)
  have z12: "length (muts s') = length (muts s1) + length mid"
    using s' l5 by (simp add: h_def n0_def len_def)
  have z13: "\<forall>x<length (muts s1). m_is_inv (muts s' ! x) = m_is_inv (muts s1 ! x) \<and>
        m_parent (muts s' ! x) = m_parent (muts s1 ! x)"
    using s' data_old by (simp add: h_def n0_def)
  have z14: "\<forall>j<length mid.
        m_is_inv (muts s' ! (length (muts s1) + j)) = m_is_inv (muts s1 ! (mid ! j)) \<and>
        m_parent (muts s' ! (length (muts s1) + j)) = m_parent (muts s1 ! (mid ! j)) \<and>
        mseg (muts s') (length (muts s1) + j) =
          (m_bgn (muts s1 ! (mid ! j)) + (e - b + 1), m_end (muts s1 ! (mid ! j)) + (e - b + 1))"
    using s' data_new by (simp add: h_def n0_def len_def dd_def)
  have z15: "\<forall>x\<in>set (pre @ mid). mseg (muts s') x = mseg (muts s1) x"
    using s' data_old Al Apost by (auto simp: h_def A_def)
  have z16: "\<forall>x\<in>set post. mseg (muts s') x =
        (m_bgn (muts s1 ! x) + (e - b + 1), m_end (muts s1 ! x) + (e - b + 1))"
    using s' data_old bnd ms by (auto simp: h_def dd_def)
  show ?thesis
    using z1 z2 z3 z4 z5 z6 z7 z8 z10 z12 z13 z14 z15 z16
    by blast
qed

lemma create_wf: "c \<noteq> [] \<Longrightarrow> wf (length c) (create c) [0] [0]"
  by (cases c) (auto simp: wf_def create_def chain_def prv_def par_ok_def kids_ok_def mseg_def oseg_def)

lemma wf_chrm:
  "wf N s ms os \<Longrightarrow> length c = length (chrm s) \<Longrightarrow> wf N (s\<lparr> chrm := c \<rparr>) ms os"
  by (simp add: wf_def)

lemma tri_split_length:
  assumes "0 \<le> b" "b \<le> e" "e < int (length c)"
  shows "(case tri_split_str c b e of (c1, c2, c3) \<Rightarrow> length (c1 @ rev c2 @ c3)) = length c"
  using assms by (simp add: tri_split_in_bounds)

lemma inv_cases:
  assumes "inv_op s b e = Inr (s', ok)"
  shows "(s' = s \<and> \<not> ok \<and> (\<not> is_in_bounds s b e \<or> is_splitable s b e = Inr False)) \<or>
         (ok \<and> is_in_bounds s b e \<and> is_splitable s b e = Inr True \<and>
          (\<exists>s1 s2. two_split s b e = Inr s1 \<and> rev_mut s1 b e = Inr s2 \<and>
             s' = s2\<lparr> chrm := (case tri_split_str (chrm s2) b e of (c1, c2, c3) \<Rightarrow> c1 @ rev c2 @ c3) \<rparr>))"
  using assms
  by (auto simp: inv_op_def split: if_splits sum.splits bool.splits prod.splits)

lemma rem_cases:
  assumes "rem s b e = Inr (s', ok)"
  shows "(s' = s \<and> \<not> ok \<and> (\<not> is_in_bounds s b e \<or> is_splitable s b e = Inr False)) \<or>
         (is_in_bounds s b e \<and> is_splitable s b e = Inr True \<and>
          (\<exists>s1. two_split s b e = Inr s1))"
  using assms
  by (auto simp: rem_def split: if_splits sum.splits bool.splits)

lemma amp_cases:
  assumes "amp s b e = Inr (s', ok)"
  shows "(s' = s \<and> \<not> ok \<and> (\<not> is_in_bounds s b e \<or> is_splitable s b e = Inr False)) \<or>
         (is_in_bounds s b e \<and> is_splitable s b e = Inr True \<and>
          (\<exists>s1. two_split s b e = Inr s1))"
  using assms
  by (auto simp: amp_def split: if_splits sum.splits bool.splits)

lemma inv_wf:
  assumes wf: "wf N s ms os" and r: "inv_op s b e = Inr (s', ok)"
  shows "\<exists>ms' os'. wf N s' ms' os'"
proof -
  from inv_cases [OF r] consider "s' = s"
    | s1 s2 where "is_in_bounds s b e" "two_split s b e = Inr s1" "rev_mut s1 b e = Inr s2"
        "s' = s2\<lparr> chrm := (case tri_split_str (chrm s2) b e of (c1, c2, c3) \<Rightarrow> c1 @ rev c2 @ c3) \<rparr>"
    by blast
  then show ?thesis
  proof cases
    case 1 with wf show ?thesis by blast
  next
    case 2
    from 2(1) have be: "0 \<le> b" "b \<le> e" "e < int (length (chrm s))" by (auto simp: is_in_bounds_def)
    from two_split_wf [OF wf be(1,2)] 2(2) obtain ms1 os1 where w1: "wf N s1 ms1 os1"
      and c1: "chrm s1 = chrm s" by auto
    from rev_mut_wf [OF w1 2(3)] obtain ms2 where w2: "wf N s2 ms2 os1" and c2: "chrm s2 = chrm s1"
      by blast
    have "length (case tri_split_str (chrm s2) b e of (c1, c2, c3) \<Rightarrow> c1 @ rev c2 @ c3) = length (chrm s2)"
      using tri_split_length [of b e "chrm s2"] be c1 c2 by (simp add: split_def)
    from wf_chrm [OF w2 this] 2(4) show ?thesis by blast
  qed
qed

lemma rem_wf:
  assumes wf: "wf N s ms os" and r: "rem s b e = Inr (s', ok)"
  shows "\<exists>ms' os'. wf N s' ms' os'"
proof -
  from rem_cases [OF r] consider "s' = s"
    | s1 where "is_in_bounds s b e" "is_splitable s b e = Inr True" "two_split s b e = Inr s1"
    by blast
  then show ?thesis
  proof cases
    case 1 with wf show ?thesis by blast
  next
    case 2
    from 2(1) have be: "0 \<le> b" "b \<le> e" by (auto simp: is_in_bounds_def)
    from two_split_wf [OF wf be] 2(3) obtain ms1 os1 where w1: "wf N s1 ms1 os1"
      and c1: "chrm s1 = chrm s" by auto
    from rem_spec [OF w1 2(1) 2(2) 2(3) c1 r] show ?thesis by blast
  qed
qed

lemma amp_wf:
  assumes wf: "wf N s ms os" and r: "amp s b e = Inr (s', ok)"
  shows "\<exists>ms' os'. wf N s' ms' os'"
proof -
  from amp_cases [OF r] consider "s' = s"
    | s1 where "is_in_bounds s b e" "is_splitable s b e = Inr True" "two_split s b e = Inr s1"
    by blast
  then show ?thesis
  proof cases
    case 1 with wf show ?thesis by blast
  next
    case 2
    from 2(1) have be: "0 \<le> b" "b \<le> e" by (auto simp: is_in_bounds_def)
    from two_split_wf [OF wf be] 2(3) obtain ms1 os1 where w1: "wf N s1 ms1 os1"
      and c1: "chrm s1 = chrm s" by auto
    from amp_spec [OF w1 2(1) 2(2) 2(3) c1 r] show ?thesis by blast
  qed
qed

lemma reachable_wf:
  "reachable c s \<Longrightarrow> c \<noteq> [] \<Longrightarrow> \<exists>ms os. wf (length c) s ms os"
proof (induction rule: reachable.induct)
  case init
  from create_wf [OF init] show ?case by blast
next
  case (inv s b e s' ok)
  then obtain ms os where "wf (length c) s ms os" by blast
  from inv_wf [OF this inv.hyps(2)] show ?case .
next
  case (del s b e s' ok)
  then obtain ms os where "wf (length c) s ms os" by blast
  from rem_wf [OF this del.hyps(2)] show ?case .
next
  case (dup s b e s' ok)
  then obtain ms os where "wf (length c) s ms os" by blast
  from amp_wf [OF this dup.hyps(2)] show ?case .
qed

lemma empty_rejects:
  assumes "chrm s = []"
  shows "inv_op s b e = Inr (s, False)" "rem s b e = Inr (s, False)" "amp s b e = Inr (s, False)"
proof -
  have "\<not> is_in_bounds s b e" using assms by (auto simp: is_in_bounds_def)
  then show "inv_op s b e = Inr (s, False)" "rem s b e = Inr (s, False)" "amp s b e = Inr (s, False)"
    by (simp_all add: inv_op_def rem_def amp_def)
qed

lemma reachable_empty: "reachable [] s \<Longrightarrow> s = create []"
proof (induction rule: reachable.induct)
  case init show ?case by simp
next
  case (inv s b e s' ok)
  then show ?case using empty_rejects(1) [of s b e] by (simp add: create_def)
next
  case (del s b e s' ok)
  then show ?case using empty_rejects(2) [of s b e] by (simp add: create_def)
next
  case (dup s b e s' ok)
  then show ?case using empty_rejects(3) [of s b e] by (simp add: create_def)
qed

lemma walk_rpath: "rpath rt p xs \<Longrightarrow> length xs < f \<Longrightarrow> walk f rt p = Inr xs"
proof (induction xs arbitrary: p f)
  case Nil then show ?case by (cases f) auto
next
  case (Cons x xs)
  then obtain f' where f: "f = Suc f'" by (cases f) auto
  with Cons show ?case by auto
qed

lemma wf_mut_nodes: "wf N s ms os \<Longrightarrow> mut_nodes s = Inr ms"
proof -
  assume "wf N s ms os"
  then have ch: "mchain (muts s) (mut s) ms" by (simp add: wf_def)
  from walk_rpath [OF chain_rpath [OF ch], of "Suc (length (muts s))"] chain_length [OF ch]
  show ?thesis by (simp add: mut_nodes_def)
qed

lemma wf_org_nodes: "wf N s ms os \<Longrightarrow> org_nodes s = Inr os"
proof -
  assume "wf N s ms os"
  then have ch: "ochain (orgs s) (Some (org s)) os" by (simp add: wf_def)
  from walk_rpath [OF chain_rpath [OF ch], of "Suc (length (orgs s))"] chain_length [OF ch]
  show ?thesis by (simp add: org_nodes_def)
qed

lemma copy_nums_loop_rpath:
  "rpath (\<lambda>x. o_r (h ! x)) p xs \<Longrightarrow> length xs < f \<Longrightarrow>
   copy_nums_loop f h p =
     Inr (map (\<lambda>x. o_bgn (h ! x)) xs, map (\<lambda>x. o_end (h ! x)) xs,
          map (\<lambda>x. length (o_children (h ! x))) xs)"
proof (induction xs arbitrary: p f)
  case Nil then show ?case by (cases f) auto
next
  case (Cons x xs)
  then obtain f' where f: "f = Suc f'" by (cases f) auto
  with Cons show ?case by auto
qed

lemma wf_copy_nums:
  "wf N s ms os \<Longrightarrow>
   get_copy_nums s =
     Inr (map (\<lambda>x. o_bgn (orgs s ! x)) os, map (\<lambda>x. o_end (orgs s ! x)) os,
          map (\<lambda>x. length (o_children (orgs s ! x))) os)"
proof -
  assume "wf N s ms os"
  then have ch: "ochain (orgs s) (Some (org s)) os" by (simp add: wf_def)
  from copy_nums_loop_rpath [OF chain_rpath [OF ch], of "Suc (length (orgs s))"] chain_length [OF ch]
  show ?thesis by (simp add: get_copy_nums_def)
qed

lemma contig_tiles: "contig lo ivs hi \<Longrightarrow> tiles lo ivs hi"
proof (induction ivs arbitrary: lo)
  case Nil then show ?case by simp
next
  case (Cons iv ivs)
  obtain b e where iv: "iv = (b, e)" by (cases iv)
  with Cons.prems have "b = lo" "contig (e + 1) ivs hi" by auto
  with Cons.IH [of "e + 1"] iv show ?case by simp
qed

lemma tiles_sum: "tiles lo ivs hi \<Longrightarrow> sum_list (map seg_len ivs) = hi - lo"
proof (induction ivs arbitrary: lo)
  case Nil then show ?case by simp
next
  case (Cons iv ivs)
  obtain b e where iv: "iv = (b, e)" by (cases iv)
  with Cons.prems have "b = lo" "tiles (e + 1) ivs hi" by auto
  with Cons.IH [of "e + 1"] iv show ?case by (simp add: seg_len_def)
qed

lemma contig_bounds:
  "contig lo ivs hi \<Longrightarrow> iv \<in> set ivs \<Longrightarrow> lo \<le> fst iv \<and> fst iv \<le> snd iv \<and> snd iv < hi"
proof (induction ivs arbitrary: lo)
  case Nil then show ?case by simp
next
  case (Cons a ivs)
  obtain b e where a: "a = (b, e)" by (cases a)
  with Cons.prems have 1: "b = lo" "b \<le> e" "contig (e + 1) ivs hi" by auto
  show ?case
  proof (cases "iv = a")
    case True
    with a 1 contig_le [OF 1(3)] show ?thesis by simp
  next
    case False
    with Cons.prems have "iv \<in> set ivs" by simp
    from Cons.IH [OF 1(3) this] 1 show ?thesis by simp
  qed
qed

lemma contig_fun: "contig lo ivs hi \<Longrightarrow> contig lo ivs hi' \<Longrightarrow> hi = hi'"
proof (induction ivs arbitrary: lo)
  case Nil then show ?case by simp
next
  case (Cons a ivs)
  obtain b e where a: "a = (b, e)" by (cases a)
  with Cons.prems have "contig (e + 1) ivs hi" "contig (e + 1) ivs hi'" by auto
  then show ?case by (rule Cons.IH)
qed

lemma is_already_mut_bgn_rpath:
  "rpath (\<lambda>x. m_r (h ! x)) p xs \<Longrightarrow> length xs < f \<Longrightarrow>
   is_already_mut_bgn f h p b = Inr (\<exists>x\<in>set xs. m_bgn (h ! x) = b)"
proof (induction xs arbitrary: p f)
  case Nil then show ?case by (cases f) auto
next
  case (Cons x xs)
  then obtain f' where f: "f = Suc f'" by (cases f) auto
  with Cons show ?case by auto
qed

lemma is_already_mut_end_rpath:
  "rpath (\<lambda>x. m_r (h ! x)) p xs \<Longrightarrow> length xs < f \<Longrightarrow>
   is_already_mut_end f h p e = Inr (\<exists>x\<in>set xs. m_end (h ! x) = e)"
proof (induction xs arbitrary: p f)
  case Nil then show ?case by (cases f) auto
next
  case (Cons x xs)
  then obtain f' where f: "f = Suc f'" by (cases f) auto
  with Cons show ?case by auto
qed

lemma wf_is_splitable:
  assumes "wf N s ms os"
  shows "is_splitable s b e =
     Inr (\<not> (b \<noteq> 0 \<and> (\<exists>x\<in>set ms. m_bgn (muts s ! x) = b)) \<and>
          \<not> (e + 1 < int (length (chrm s)) \<and> (\<exists>x\<in>set ms. m_end (muts s ! x) = e)))"
proof -
  from assms have ch: "mchain (muts s) (mut s) ms" by (simp add: wf_def)
  note rp = chain_rpath [OF ch]
  have len: "length ms < Suc (length (muts s))" using chain_length [OF ch] by simp
  note a = is_already_mut_bgn_rpath [OF rp len, of b]
  note c = is_already_mut_end_rpath [OF rp len, of e]
  show ?thesis unfolding is_splitable_def a c
    by (cases "\<exists>x\<in>set ms. m_bgn (muts s ! x) = b"; cases "\<exists>x\<in>set ms. m_end (muts s ! x) = e")
       (simp_all del: bex_simps)
qed

lemma deleted_example_reachable: "reachable ''ATCCGA'' deleted_example"
proof -
  have "rem (create ''ATCCGA'') 1 3 = Inr (deleted_example, True)" by code_simp
  from reachable.del [OF reachable.init this] show ?thesis .
qed

text \<open>
  Claim C6. In every profile reachable from \<^verbatim>\<open>ChrmProf(c)\<close> by calls of \<^verbatim>\<open>inv\<close>,
  \<^verbatim>\<open>rem\<close> and \<^verbatim>\<open>amp\<close> that return, walking the original list from \<^verbatim>\<open>org\<close> and
  the mutated list from \<^verbatim>\<open>mut\<close> ends, visits no node twice, and finds segments that
  tile \<open>[0, N)\<close> and \<open>[0, M)\<close>: the first segment begins at 0, each next one begins
  one past the end of its predecessor, and the last one ends at \<open>N - 1\<close> (the
  length of \<open>c\<close>), respectively \<open>M - 1\<close> (the length of the current string). The
  segment lengths therefore add up to \<open>N\<close> and to \<open>M\<close>. Unless \<open>c\<close> is empty no
  segment is empty, so the segments are in increasing order and do not overlap;
  \<^verbatim>\<open>get_copy_nums\<close> returns the bounds of the same original segments.
\<close>

theorem partitions_tile:
  assumes "reachable c s"
  shows "\<exists>ms os. mut_nodes s = Inr ms \<and> org_nodes s = Inr os \<and>
     distinct ms \<and> distinct os \<and>
     tiles 0 (map (oseg (orgs s)) os) (int (length c)) \<and>
     sum_list (map (\<lambda>x. seg_len (oseg (orgs s) x)) os) = int (length c) \<and>
     tiles 0 (map (mseg (muts s)) ms) (int (length (chrm s))) \<and>
     sum_list (map (\<lambda>x. seg_len (mseg (muts s) x)) ms) = int (length (chrm s)) \<and>
     (c \<noteq> [] \<longrightarrow> (\<forall>x\<in>set os. o_bgn (orgs s ! x) \<le> o_end (orgs s ! x)) \<and>
                  (\<forall>x\<in>set ms. m_bgn (muts s ! x) \<le> m_end (muts s ! x))) \<and>
     get_copy_nums s =
       Inr (map (\<lambda>x. o_bgn (orgs s ! x)) os, map (\<lambda>x. o_end (orgs s ! x)) os,
            map (\<lambda>x. length (o_children (orgs s ! x))) os)"
proof (cases "c = []")
  case True
  with assms have s: "s = create []" using reachable_empty by simp
  have 1: "mut_nodes s = Inr [0]" unfolding s by (simp add: mut_nodes_def create_def)
  have 2: "org_nodes s = Inr [0]" unfolding s by (simp add: org_nodes_def create_def)
  have 3: "get_copy_nums s =
       Inr (map (\<lambda>x. o_bgn (orgs s ! x)) [0], map (\<lambda>x. o_end (orgs s ! x)) [0],
            map (\<lambda>x. length (o_children (orgs s ! x))) [0])"
    unfolding s by (simp add: get_copy_nums_def create_def)
  have 4: "tiles 0 (map (oseg (orgs s)) [0]) (int (length c))"
    "sum_list (map (\<lambda>x. seg_len (oseg (orgs s) x)) [0]) = int (length c)"
    "tiles 0 (map (mseg (muts s)) [0]) (int (length (chrm s)))"
    "sum_list (map (\<lambda>x. seg_len (mseg (muts s) x)) [0]) = int (length (chrm s))"
    unfolding s using True by (simp_all add: create_def oseg_def mseg_def seg_len_def)
  show ?thesis
    apply (rule exI [of _ "[0]"], rule exI [of _ "[0]"])
    using 1 2 3 4 True by simp
next
  case False
  from reachable_wf [OF assms False] obtain ms os where wf: "wf (length c) s ms os" by blast
  then have cm: "contig 0 (map (mseg (muts s)) ms) (int (length (chrm s)))"
    and co: "contig 0 (map (oseg (orgs s)) os) (int (length c))"
    and d: "distinct ms" "distinct os"
    by (auto simp: wf_def chain_def)
  have sm: "sum_list (map seg_len (map (mseg (muts s)) ms)) = int (length (chrm s))"
    using tiles_sum [OF contig_tiles [OF cm]] by simp
  have so: "sum_list (map seg_len (map (oseg (orgs s)) os)) = int (length c)"
    using tiles_sum [OF contig_tiles [OF co]] by simp
  have nm: "\<forall>x\<in>set ms. m_bgn (muts s ! x) \<le> m_end (muts s ! x)"
  proof
    fix x assume "x \<in> set ms"
    then have "mseg (muts s) x \<in> set (map (mseg (muts s)) ms)" by simp
    from contig_bounds [OF cm this] show "m_bgn (muts s ! x) \<le> m_end (muts s ! x)"
      by (simp add: mseg_def)
  qed
  have no: "\<forall>x\<in>set os. o_bgn (orgs s ! x) \<le> o_end (orgs s ! x)"
  proof
    fix x assume "x \<in> set os"
    then have "oseg (orgs s) x \<in> set (map (oseg (orgs s)) os)" by simp
    from contig_bounds [OF co this] show "o_bgn (orgs s ! x) \<le> o_end (orgs s ! x)"
      by (simp add: oseg_def)
  qed
  show ?thesis
    apply (rule exI [of _ ms], rule exI [of _ os])
    using wf_mut_nodes [OF wf] wf_org_nodes [OF wf] wf_copy_nums [OF wf] d
      contig_tiles [OF cm] contig_tiles [OF co] sm so nm no
    by (simp add: comp_def)
qed

theorem partitions_tile_witness:
  "reachable ''ATCCGA'' deleted_example \<and> chrm deleted_example = ''AGA'' \<and>
   mut_nodes deleted_example = Inr [0, 2] \<and> org_nodes deleted_example = Inr [0, 1, 2] \<and>
   get_copy_nums deleted_example = Inr ([0, 1, 4], [0, 3, 5], [1, 0, 1]) \<and>
   tiles 0 (map (oseg (orgs deleted_example)) [0, 1, 2]) 6 \<and>
   tiles 0 (map (mseg (muts deleted_example)) [0, 2]) 3 \<and>
   sum_list (map (\<lambda>x. seg_len (oseg (orgs deleted_example) x)) [0, 1, 2]) = 6 \<and>
   sum_list (map (\<lambda>x. seg_len (mseg (muts deleted_example) x)) [0, 2]) = 3"
proof -
  have m: "mut_nodes deleted_example = Inr [0, 2]" by code_simp
  have q: "org_nodes deleted_example = Inr [0, 1, 2]" by code_simp
  have c: "chrm deleted_example = ''AGA''" by code_simp
  have g: "get_copy_nums deleted_example = Inr ([0, 1, 4], [0, 3, 5], [1, 0, 1])" by code_simp
  have e1: "int (length ''ATCCGA'') = 6" by simp
  have e2: "int (length (chrm deleted_example)) = 3" by (simp add: c)
  from partitions_tile [OF deleted_example_reachable] obtain ms os where
    a: "mut_nodes deleted_example = Inr ms" "org_nodes deleted_example = Inr os"
    and t: "tiles 0 (map (oseg (orgs deleted_example)) os) (int (length ''ATCCGA''))"
      "sum_list (map (\<lambda>x. seg_len (oseg (orgs deleted_example) x)) os) = int (length ''ATCCGA'')"
      "tiles 0 (map (mseg (muts deleted_example)) ms) (int (length (chrm deleted_example)))"
      "sum_list (map (\<lambda>x. seg_len (mseg (muts deleted_example) x)) ms) = int (length (chrm deleted_example))"
    by blast
  from a m q have ms: "ms = [0, 2]" and os: "os = [0, 1, 2]" by simp_all
  from t have "tiles 0 (map (oseg (orgs deleted_example)) [0, 1, 2]) 6"
    "sum_list (map (\<lambda>x. seg_len (oseg (orgs deleted_example) x)) [0, 1, 2]) = 6"
    "tiles 0 (map (mseg (muts deleted_example)) [0, 2]) 3"
    "sum_list (map (\<lambda>x. seg_len (mseg (muts deleted_example) x)) [0, 2]) = 3"
    unfolding ms os e1 e2 by blast+
  with deleted_example_reachable c m q g show ?thesis by blast
qed

end
